theory Spec2Isabelle
  imports Complex_Main
begin

section \<open>Header validation\<close>

text \<open>
  \<^verbatim>\<open>strings.Join(elems, sep)\<close>: the elements, with the separator between
  each two neighbours.
\<close>

fun Join :: "string list \<Rightarrow> string \<Rightarrow> string" where
  "Join [] sep = []"
| "Join [x] sep = x"
| "Join (x # y # ys) sep = x @ sep @ Join (y # ys) sep"

text \<open>
  \<^verbatim>\<open>validateHeaders(tableName, headers)\<close>: the switch picks the expected header
  list, the default case returns false, and the result is the comparison of the two
  comma-joined strings.
\<close>

definition validateHeaders :: "string \<Rightarrow> string list \<Rightarrow> bool" where
  "validateHeaders tableName headers =
     (if tableName = ''movies'' then
        Join headers '','' = Join [''id'', ''name'', ''year'', ''rank''] '',''
      else if tableName = ''movies_genres'' then
        Join headers '','' = Join [''movie_id'', ''genre''] '',''
      else False)"

section \<open>Errors, the record reader and the storage engine\<close>

text \<open>
  Go's \<^verbatim>\<open>error\<close> values. A result of type \<^verbatim>\<open>error\<close> is a
  \<open>go_error option\<close>, with \<open>None\<close> for \<^verbatim>\<open>nil\<close>. Every constructor
  but \<open>EOF\<close> names the call that produced the error.
\<close>

datatype go_error = EOF | ParseError | ErrFieldCount | OpenError | BeginError | ExecError | CommitError

text \<open>
  The CSV file as \<^verbatim>\<open>encoding/csv\<close> sees it: one entry per physical record, either the
  fields the decoder (with \<^verbatim>\<open>LazyQuotes = true\<close>) extracts from it or the fact that
  it cannot be decoded. The decoder itself belongs to Go's standard library and is an
  input of the model. The file is finite.
\<close>

datatype line = Fields "string list" | Malformed

text \<open>
  \<^verbatim>\<open>csv.NewReader\<close> leaves \<^verbatim>\<open>FieldsPerRecord\<close> at 0. The documented behaviour of
  \<^verbatim>\<open>Read\<close> for that setting: the first record sets \<^verbatim>\<open>FieldsPerRecord\<close> to its
  number of fields, and every later record with another number of fields is reported
  with \<^verbatim>\<open>ErrFieldCount\<close>. At the end of the input \<^verbatim>\<open>Read\<close> returns
  \<^verbatim>\<open>io.EOF\<close>.
\<close>

record Reader =
  FieldsPerRecord :: nat
  input :: "line list"

datatype read_result = Rec "string list" | Fail go_error

definition NewReader :: "line list \<Rightarrow> Reader" where
  "NewReader ls = \<lparr>FieldsPerRecord = 0, input = ls\<rparr>"

definition Read :: "Reader \<Rightarrow> read_result \<times> Reader" where
  "Read r =
     (case input r of
        [] \<Rightarrow> (Fail EOF, r)
      | Malformed # ls \<Rightarrow> (Fail ParseError, r\<lparr>input := ls\<rparr>)
      | Fields fs # ls \<Rightarrow>
          (if 0 < FieldsPerRecord r then
             (if length fs = FieldsPerRecord r then (Rec fs, r\<lparr>input := ls\<rparr>)
              else (Fail ErrFieldCount, r\<lparr>input := ls\<rparr>))
           else (Rec fs, r\<lparr>FieldsPerRecord := length fs, input := ls\<rparr>)))"

text \<open>
  The storage engine at its interface. \<open>rows\<close> is the committed content of the
  destination table, \<open>pending\<close> the rows inserted inside the open transaction and
  not yet committed, \<open>calls\<close> the calls the loader made, in order. Whether a call is
  rejected is the engine's decision (a constraint, a storage fault): it is the
  parameter \<open>engine\<close>, which may look at the whole state.
\<close>

datatype tx_call = Begin | Exec string "string list" | Commit | Rollback

record db =
  rows :: "string list list"
  pending :: "string list list"
  calls :: "tx_call list"

record engine =
  begin_fails :: "db \<Rightarrow> bool"
  exec_fails :: "db \<Rightarrow> string \<Rightarrow> string list \<Rightarrow> bool"
  commit_fails :: "db \<Rightarrow> bool"

text \<open>
  The positional arguments of a multi-row insert are bound row-major:
  \<open>bound_rows cols\<close> is the list of rows, of \<open>cols\<close> columns each, that an
  argument list stands for.
\<close>

function bound_rows :: "nat \<Rightarrow> 'a list \<Rightarrow> 'a list list" where
  "bound_rows cols args =
     (if 0 < cols \<and> args \<noteq> [] then take cols args # bound_rows cols (drop cols args) else [])"
  by pat_completeness auto
termination
  by (relation "measure (\<lambda>(cols, args). length args)") auto

definition db_Begin :: "engine \<Rightarrow> db \<Rightarrow> go_error option \<times> db" where
  "db_Begin e d =
     (if begin_fails e d then (Some BeginError, d\<lparr>calls := calls d @ [Begin]\<rparr>)
      else (None, d\<lparr>pending := [], calls := calls d @ [Begin]\<rparr>))"

definition tx_Exec :: "engine \<Rightarrow> nat \<Rightarrow> string \<Rightarrow> string list \<Rightarrow> db \<Rightarrow> go_error option \<times> db" where
  "tx_Exec e cols stmt args d =
     (if exec_fails e d stmt args then (Some ExecError, d\<lparr>calls := calls d @ [Exec stmt args]\<rparr>)
      else (None, d\<lparr>pending := pending d @ bound_rows cols args, calls := calls d @ [Exec stmt args]\<rparr>))"

definition tx_Commit :: "engine \<Rightarrow> db \<Rightarrow> go_error option \<times> db" where
  "tx_Commit e d =
     (if commit_fails e d then (Some CommitError, d\<lparr>calls := calls d @ [Commit]\<rparr>)
      else (None, d\<lparr>rows := rows d @ pending d, pending := [], calls := calls d @ [Commit]\<rparr>))"

definition tx_Rollback :: "db \<Rightarrow> db" where
  "tx_Rollback d = d\<lparr>pending := [], calls := calls d @ [Rollback]\<rparr>"

section \<open>The two loaders\<close>

text \<open>
  \<^verbatim>\<open>populateMovies\<close> and \<^verbatim>\<open>populateMoviesGenres\<close> are the same text up to the
  constants collected in \<open>loader\<close>: the table name given to validateHeaders, the head
  of the insert statement, the placeholder group appended per row, and the number of
  fields taken from each record (\<^verbatim>\<open>moviesRecord[0]\<close> to \<^verbatim>\<open>moviesRecord[3]\<close>, resp.
  \<^verbatim>\<open>moviesRecord[0]\<close> and \<^verbatim>\<open>moviesRecord[1]\<close>), which is also the divisor of
  \<^verbatim>\<open>len(values)\<close> in the final count.
\<close>

record loader =
  tableName :: string
  insertHead :: string
  placeholders :: string
  columns :: nat

definition moviesLoader :: loader where
  "moviesLoader =
     \<lparr>tableName = ''movies'',
      insertHead = ''INSERT INTO movies (id, name, year, rank) VALUES'',
      placeholders = ''(?, ?, ?, ?),'',
      columns = 4\<rparr>"

definition moviesGenresLoader :: loader where
  "moviesGenresLoader =
     \<lparr>tableName = ''movies_genres'',
      insertHead = ''INSERT INTO movies_genres (movie_id, genre) VALUES'',
      placeholders = ''(?, ?),'',
      columns = 2\<rparr>"

definition batchSize :: nat where
  "batchSize = 100"

text \<open>
  The local variables of the loop (\<open>vals\<close> is the source's \<^verbatim>\<open>values\<close>). The
  counters are Go \<^verbatim>\<open>int\<close>s; a file has far fewer than \<open>2^63\<close> records, so they
  are natural numbers here.
\<close>

record vars =
  vals :: "string list"
  insertStmt :: string
  validRowCount :: nat
  totalMovies :: nat
  rowNumber :: nat

text \<open>
  How a function is left: by returning an error value (\<open>None\<close> is
  \<^verbatim>\<open>nil\<close>) or by a run-time panic (an index out of range).
\<close>

datatype outcome = Return "go_error option" | Panic

datatype flow = Break | Exit outcome

text \<open>
  The \<^verbatim>\<open>for\<close> loop. A record that \<^verbatim>\<open>Read\<close> returns with an error other than
  \<^verbatim>\<open>io.EOF\<close> is skipped. Indexing a record with fewer fields than the loader
  takes panics before \<^verbatim>\<open>values\<close> is changed. When the batch is full it is handed
  to \<^verbatim>\<open>tx.Exec\<close> with the statement less its trailing comma; an error there
  leaves the function at once.
\<close>

function loop :: "loader \<Rightarrow> engine \<Rightarrow> Reader \<Rightarrow> vars \<Rightarrow> db \<Rightarrow> flow \<times> vars \<times> db" where
  "loop L e r v d =
     (case Read r of
        (Fail err, r') \<Rightarrow>
          (if err = EOF then (Break, v, d)
           else loop L e r' (v\<lparr>rowNumber := rowNumber v + 1\<rparr>) d)
      | (Rec rc, r') \<Rightarrow>
          (if length rc < columns L then (Exit Panic, v, d)
           else
             (let v1 = v\<lparr>vals := vals v @ take (columns L) rc,
                         insertStmt := insertStmt v @ placeholders L,
                         validRowCount := validRowCount v + 1\<rparr>
              in if validRowCount v1 = batchSize then
                   (case tx_Exec e (columns L) (butlast (insertStmt v1)) (vals v1) d of
                      (Some err, d') \<Rightarrow> (Exit (Return (Some err)), v1, d')
                    | (None, d') \<Rightarrow>
                        loop L e r'
                          (v1\<lparr>vals := [], insertStmt := insertHead L, validRowCount := 0,
                              totalMovies := totalMovies v1 + 100,
                              rowNumber := rowNumber v1 + 1\<rparr>) d')
                 else loop L e r' (v1\<lparr>rowNumber := rowNumber v1 + 1\<rparr>) d)))"
  by pat_completeness auto
termination
  by (relation "measure (\<lambda>(L, e, r, v, d). length (input r))")
     (auto simp: Read_def split: list.splits line.splits if_splits)

text \<open>The values of the local variables when the loop is entered.\<close>

definition initVars :: "loader \<Rightarrow> vars" where
  "initVars L =
     \<lparr>vals = [], insertStmt = insertHead L, validRowCount = 0, totalMovies = 0, rowNumber = 1\<rparr>"

text \<open>
  The deferred closure \<^verbatim>\<open>func() { if err != nil { tx.Rollback() } }\<close>. It reads the
  variable \<^verbatim>\<open>err\<close> of the function's outermost scope, given here as its argument.
\<close>

definition deferred :: "go_error option \<Rightarrow> db \<Rightarrow> db" where
  "deferred err d = (if err = None then d else tx_Rollback d)"

text \<open>
  The body of a populate function. \<open>src\<close> is \<open>None\<close> when \<^verbatim>\<open>os.Open\<close> fails.
  The second component of the result is the number printed as the total of inserted
  rows, when that line is reached.

  \<^item> A header that fails validation leads to \<^verbatim>\<open>return err\<close>, where \<^verbatim>\<open>err\<close> is the
    result of the header's \<^verbatim>\<open>Read\<close>: \<^verbatim>\<open>nil\<close>, since a non-nil one has returned
    before.
  \<^item> After \<^verbatim>\<open>tx, err := m.db.Begin()\<close> has succeeded the outer \<^verbatim>\<open>err\<close> is
    \<^verbatim>\<open>nil\<close>, and nothing assigns to it again: the \<^verbatim>\<open>err\<close> of the loop body, of the
    two \<^verbatim>\<open>tx.Exec\<close> calls and of \<^verbatim>\<open>tx.Commit\<close> are new variables declared with
    \<^verbatim>\<open>:=\<close> in inner blocks, and the result of the function has no name. The
    deferred closure runs at every exit below, with that outer \<^verbatim>\<open>err\<close>.
\<close>

definition populate :: "loader \<Rightarrow> engine \<Rightarrow> line list option \<Rightarrow> db \<Rightarrow> outcome \<times> nat option \<times> db" where
  "populate L e src d =
     (case src of
        None \<Rightarrow> (Return (Some OpenError), None, d)
      | Some ls \<Rightarrow>
          (case Read (NewReader ls) of
             (Fail err, r) \<Rightarrow> (Return (Some err), None, d)
           | (Rec header, r) \<Rightarrow>
               (let err = None in
                if \<not> validateHeaders (tableName L) header then (Return err, None, d)
                else
                  (case db_Begin e d of
                     (Some err, d1) \<Rightarrow> (Return (Some err), None, d1)
                   | (None, d1) \<Rightarrow>
                       (let err = None
                        in case loop L e r (initVars L) d1 of
                             (Exit out, v, d2) \<Rightarrow> (out, None, deferred err d2)
                           | (Break, v, d2) \<Rightarrow>
                               (case (if 0 < length (vals v)
                                      then tx_Exec e (columns L) (butlast (insertStmt v)) (vals v) d2
                                      else (None, d2)) of
                                  (Some err', d3) \<Rightarrow> (Return (Some err'), None, deferred err d3)
                                | (None, d3) \<Rightarrow>
                                    (let total = (if 0 < length (vals v)
                                                  then totalMovies v + length (vals v) div columns L
                                                  else totalMovies v)
                                     in case tx_Commit e d3 of
                                          (Some err', d4) \<Rightarrow> (Return (Some err'), None, deferred err d4)
                                        | (None, d4) \<Rightarrow> (Return None, Some total, deferred err d4))))))))"

definition populateMovies :: "engine \<Rightarrow> line list option \<Rightarrow> db \<Rightarrow> outcome \<times> nat option \<times> db" where
  "populateMovies = populate moviesLoader"

definition populateMoviesGenres :: "engine \<Rightarrow> line list option \<Rightarrow> db \<Rightarrow> outcome \<times> nat option \<times> db" where
  "populateMoviesGenres = populate moviesGenresLoader"

section \<open>Observations on a run\<close>

text \<open>
  The results of the successive calls of \<^verbatim>\<open>Read\<close> up to \<^verbatim>\<open>io.EOF\<close>: the records
  read from the stream. \<open>accepted\<close> keeps the records returned without error,
  \<open>skipped\<close> counts the others.
\<close>

function results :: "Reader \<Rightarrow> read_result list" where
  "results r =
     (case Read r of
        (Fail err, r') \<Rightarrow> (if err = EOF then [] else Fail err # results r')
      | (Rec rc, r') \<Rightarrow> Rec rc # results r')"
  by pat_completeness auto
termination
  by (relation "measure (\<lambda>r. length (input r))")
     (auto simp: Read_def split: list.splits line.splits if_splits)

fun accepted :: "read_result list \<Rightarrow> string list list" where
  "accepted [] = []"
| "accepted (Rec rc # xs) = rc # accepted xs"
| "accepted (Fail err # xs) = accepted xs"

fun skipped :: "read_result list \<Rightarrow> nat" where
  "skipped [] = 0"
| "skipped (Rec rc # xs) = skipped xs"
| "skipped (Fail err # xs) = Suc (skipped xs)"

definition records :: "Reader \<Rightarrow> string list list" where
  "records r = accepted (results r)"

text \<open>
  The argument lists of the \<^verbatim>\<open>tx.Exec\<close> calls in a call sequence (the batches handed
  to the transaction), and the calls issued between two states of the storage.
\<close>

fun batches :: "tx_call list \<Rightarrow> string list list" where
  "batches [] = []"
| "batches (Exec s a # cs) = a # batches cs"
| "batches (c # cs) = batches cs"

definition issued :: "db \<Rightarrow> db \<Rightarrow> tx_call list" where
  "issued d d' = drop (length (calls d)) (calls d')"

text \<open>An engine that rejects nothing, and the storage as \<^verbatim>\<open>newSchema\<close> leaves it.\<close>

definition accepting :: engine where
  "accepting =
     \<lparr>begin_fails = (\<lambda>d. False), exec_fails = (\<lambda>d s a. False), commit_fails = (\<lambda>d. False)\<rparr>"

definition emptyTable :: db where
  "emptyTable = \<lparr>rows = [], pending = [], calls = []\<rparr>"

section \<open>The first reporting query\<close>

text \<open>
  The tables as the query sees them. The column \<^verbatim>\<open>rank\<close> has type REAL: a cell holds
  SQL NULL, a number, or a text that is not a number (the loader binds every field as
  text, and the input writes missing ratings as the text \<^verbatim>\<open>NULL\<close>). Numbers are exact
  rationals here; the engine computes with doubles.
\<close>

datatype cell = Null | Num rat | Text string

record movies_row =
  m_id :: int
  m_name :: string
  m_year :: int
  m_rank :: cell

record movies_genres_row =
  mg_movie_id :: int
  mg_genre :: string

text \<open>\<^verbatim>\<open>FROM movies_genres mg JOIN movies m ON mg.movie_id = m.id\<close>\<close>

definition joined :: "movies_genres_row list \<Rightarrow> movies_row list \<Rightarrow> (movies_genres_row \<times> movies_row) list" where
  "joined genres movies =
     concat (map (\<lambda>mg. map (\<lambda>m. (mg, m)) (filter (\<lambda>m. mg_movie_id mg = m_id m) movies)) genres)"

text \<open>
  \<^verbatim>\<open>AVG\<close> over the cells of a group: NULL cells are left out, and the number the
  engine reads from a text cell is the parameter \<open>text_num\<close>.
\<close>

definition AVG :: "(string \<Rightarrow> rat) \<Rightarrow> cell list \<Rightarrow> rat" where
  "AVG text_num xs =
     (let ns = concat (map (\<lambda>c. case c of Null \<Rightarrow> [] | Num x \<Rightarrow> [x] | Text s \<Rightarrow> [text_num s]) xs)
      in sum_list ns / of_nat (length ns))"

text \<open>
  The query of \<^verbatim>\<open>queryDbHighestRatedGenres\<close>, clause by clause:
  \<^verbatim>\<open>WHERE m.rank IS NOT NULL AND m.rank != 'NULL'\<close>,
  \<^verbatim>\<open>GROUP BY mg.genre, m.rank\<close>,
  \<^verbatim>\<open>SELECT mg.genre, AVG(m.rank) AS avg_rank, COUNT(m.id) AS movie_count\<close>,
  \<^verbatim>\<open>ORDER BY avg_rank DESC\<close>, \<^verbatim>\<open>LIMIT 20\<close>. The result is the list of rows that
  the function prints. SQL leaves the order of rows with equal \<^verbatim>\<open>avg_rank\<close> open; here
  they keep the order in which their groups first occur.
\<close>

definition queryDbHighestRatedGenres ::
  "(string \<Rightarrow> rat) \<Rightarrow> movies_row list \<Rightarrow> movies_genres_row list \<Rightarrow> (string \<times> rat \<times> nat) list" where
  "queryDbHighestRatedGenres text_num movies genres =
     (let selected = filter (\<lambda>(mg, m). m_rank m \<noteq> Null \<and> m_rank m \<noteq> Text ''NULL'') (joined genres movies);
          keys = remdups (map (\<lambda>(mg, m). (mg_genre mg, m_rank m)) selected);
          grouped =
            map (\<lambda>k. (fst k,
                      AVG text_num (map (\<lambda>(mg, m). m_rank m)
                        (filter (\<lambda>(mg, m). (mg_genre mg, m_rank m) = k) selected)),
                      length (filter (\<lambda>(mg, m). (mg_genre mg, m_rank m) = k) selected))) keys
      in take 20 (sort_key (\<lambda>(genre, avg_rank, movie_count). - avg_rank) grouped))"

section \<open>A sample input\<close>

text \<open>
  A movies file with the expected header, two well-formed rows and, between them, a
  record that cannot be decoded; the reader as it stands after the header; and the
  arguments, the call and the local variables that the two rows lead to.
\<close>

definition sampleRow :: "string list" where
  "sampleRow = [''1'', ''Foo'', ''1999'', ''6.4'']"

definition sampleRows :: "string list list" where
  "sampleRows = [sampleRow, [''2'', ''Bar'', ''2001'', ''NULL'']]"

definition sampleFile :: "line list" where
  "sampleFile = [Fields [''id'', ''name'', ''year'', ''rank''], Fields sampleRow, Malformed, Fields [''2'', ''Bar'', ''2001'', ''NULL'']]"

definition sampleData :: Reader where
  "sampleData = \<lparr>FieldsPerRecord = 4, input = [Fields sampleRow, Malformed, Fields [''2'', ''Bar'', ''2001'', ''NULL'']]\<rparr>"

definition sampleValues :: "string list" where
  "sampleValues = [''1'', ''Foo'', ''1999'', ''6.4'', ''2'', ''Bar'', ''2001'', ''NULL'']"

definition sampleExec :: tx_call where
  "sampleExec = Exec ''INSERT INTO movies (id, name, year, rank) VALUES(?, ?, ?, ?),(?, ?, ?, ?)'' sampleValues"

definition sampleVars :: vars where
  "sampleVars =
     \<lparr>vals = sampleValues,
      insertStmt = ''INSERT INTO movies (id, name, year, rank) VALUES(?, ?, ?, ?),(?, ?, ?, ?),'',
      validRowCount = 2, totalMovies = 0, rowNumber = 4\<rparr>"

text \<open>Engines that reject every insert, resp. every commit, and nothing else.\<close>

definition rejecting :: engine where
  "rejecting = accepting\<lparr>exec_fails := \<lambda>d s a. True\<rparr>"

definition commitRejecting :: engine where
  "commitRejecting = accepting\<lparr>commit_fails := \<lambda>d. True\<rparr>"

text \<open>A file of the expected header and \<open>n\<close> copies of one well-formed row.\<close>

definition copiesFile :: "nat \<Rightarrow> line list" where
  "copiesFile n = Fields [''id'', ''name'', ''year'', ''rank''] # map Fields (replicate n sampleRow)"

definition copiesData :: "nat \<Rightarrow> Reader" where
  "copiesData n = \<lparr>FieldsPerRecord = 4, input = map Fields (replicate n sampleRow)\<rparr>"

section \<open>Theorems about header validation\<close>

text \<open>
  C2 (the code at the failing input). The claim says that validateHeaders returns true
  only for the expected list itself, element for element. The three-element sequence
  whose first element is the text \<open>id,name\<close> is different from the expected
  four-element list, yet the joined strings are equal and validateHeaders returns true.
\<close>

theorem validateHeaders_accepts_joined_field:
  "validateHeaders ''movies'' [''id,name'', ''year'', ''rank'']
   \<and> [''id,name'', ''year'', ''rank''] \<noteq> [''id'', ''name'', ''year'', ''rank'']
   \<and> validateHeaders ''movies_genres'' [''movie_id,genre'']
   \<and> [''movie_id,genre''] \<noteq> [''movie_id'', ''genre'']"
  by (simp add: validateHeaders_def)

text \<open>
  What validateHeaders does decide: when no observed header contains a comma, it
  returns true exactly for the expected list, and for a table name other than the two
  it returns false.
\<close>

lemma first_comma:
  "CHR '','' \<notin> set a \<Longrightarrow> CHR '','' \<notin> set b \<Longrightarrow> a @ '','' @ u = b @ '','' @ w \<Longrightarrow> a = b \<and> u = w"
proof (induction a arbitrary: b)
  case Nil
  then show ?case by (cases b) auto
next
  case (Cons x a)
  then show ?case by (cases b) auto
qed

lemma Join_comma_free_inj:
  assumes "\<forall>x\<in>set xs. CHR '','' \<notin> set x" and "\<forall>y\<in>set ys. CHR '','' \<notin> set y"
    and "xs \<noteq> []" and "ys \<noteq> []" and "Join xs '','' = Join ys '',''"
  shows "xs = ys"
  using assms
proof (induction xs arbitrary: ys)
  case Nil
  then show ?case by simp
next
  case (Cons x xs)
  from Cons.prems(4) obtain b r where ys: "ys = b # r" by (cases ys) auto
  show ?case
  proof (cases xs)
    case xn: Nil
    show ?thesis
    proof (cases r)
      case Nil
      with Cons.prems ys xn show ?thesis by simp
    next
      case (Cons b' r')
      with Cons.prems ys xn have "x = b @ '','' @ Join (b' # r') '',''" by simp
      with Cons.prems(1) show ?thesis by auto
    qed
  next
    case xc: (Cons y zs)
    show ?thesis
    proof (cases r)
      case Nil
      with Cons.prems ys xc have "b = x @ '','' @ Join (y # zs) '',''" by simp
      with Cons.prems(2) ys show ?thesis by auto
    next
      case rc: (Cons b' r')
      with Cons.prems ys xc have "x @ '','' @ Join (y # zs) '','' = b @ '','' @ Join (b' # r') '',''"
        by simp
      with Cons.prems ys have "x = b \<and> Join (y # zs) '','' = Join (b' # r') '',''"
        by (intro first_comma) auto
      moreover with Cons.IH[of r] Cons.prems ys xc rc have "xs = r" by auto
      ultimately show ?thesis using ys by simp
    qed
  qed
qed

lemma validateHeaders_comma_free:
  assumes "\<forall>h\<in>set headers. CHR '','' \<notin> set h"
  shows "validateHeaders ''movies'' headers \<longleftrightarrow> headers = [''id'', ''name'', ''year'', ''rank'']"
    and "validateHeaders ''movies_genres'' headers \<longleftrightarrow> headers = [''movie_id'', ''genre'']"
proof -
  have "headers = [''id'', ''name'', ''year'', ''rank'']"
    if "Join headers '','' = Join [''id'', ''name'', ''year'', ''rank''] '',''"
  proof -
    from that have "headers \<noteq> []" by auto
    with assms that show ?thesis by (intro Join_comma_free_inj) auto
  qed
  then show "validateHeaders ''movies'' headers \<longleftrightarrow> headers = [''id'', ''name'', ''year'', ''rank'']"
    by (auto simp: validateHeaders_def)
  have "headers = [''movie_id'', ''genre'']"
    if "Join headers '','' = Join [''movie_id'', ''genre''] '',''"
  proof -
    from that have "headers \<noteq> []" by auto
    with assms that show ?thesis by (intro Join_comma_free_inj) auto
  qed
  then show "validateHeaders ''movies_genres'' headers \<longleftrightarrow> headers = [''movie_id'', ''genre'']"
    by (auto simp: validateHeaders_def)
qed

lemma validateHeaders_other_table:
  "t \<noteq> ''movies'' \<Longrightarrow> t \<noteq> ''movies_genres'' \<Longrightarrow> \<not> validateHeaders t headers"
  by (simp add: validateHeaders_def)

section \<open>The loop, step by step\<close>

declare loop.simps [simp del] results.simps [simp del] bound_rows.simps [simp del]

lemma loop_EOF: "Read r = (Fail EOF, r') \<Longrightarrow> loop L e r v d = (Break, v, d)"
  by (subst loop.simps) simp

lemma loop_skip:
  "Read r = (Fail err, r') \<Longrightarrow> err \<noteq> EOF \<Longrightarrow>
   loop L e r v d = loop L e r' (v\<lparr>rowNumber := rowNumber v + 1\<rparr>) d"
  by (subst loop.simps) simp

lemma loop_panic:
  "Read r = (Rec rc, r') \<Longrightarrow> length rc < columns L \<Longrightarrow> loop L e r v d = (Exit Panic, v, d)"
  by (subst loop.simps) simp

lemma loop_add:
  "Read r = (Rec rc, r') \<Longrightarrow> columns L \<le> length rc \<Longrightarrow> Suc (validRowCount v) \<noteq> batchSize \<Longrightarrow>
   loop L e r v d =
     loop L e r' (v\<lparr>vals := vals v @ take (columns L) rc,
                     insertStmt := insertStmt v @ placeholders L,
                     validRowCount := Suc (validRowCount v),
                     rowNumber := rowNumber v + 1\<rparr>) d"
  by (subst loop.simps) (simp add: Let_def)

lemma loop_flush_fail:
  "Read r = (Rec rc, r') \<Longrightarrow> columns L \<le> length rc \<Longrightarrow> Suc (validRowCount v) = batchSize \<Longrightarrow>
   exec_fails e d (butlast (insertStmt v @ placeholders L)) (vals v @ take (columns L) rc) \<Longrightarrow>
   loop L e r v d =
     (Exit (Return (Some ExecError)),
      v\<lparr>vals := vals v @ take (columns L) rc,
        insertStmt := insertStmt v @ placeholders L,
        validRowCount := Suc (validRowCount v)\<rparr>,
      d\<lparr>calls := calls d @ [Exec (butlast (insertStmt v @ placeholders L)) (vals v @ take (columns L) rc)]\<rparr>)"
  by (subst loop.simps) (simp add: Let_def tx_Exec_def)

lemma loop_flush_ok:
  "Read r = (Rec rc, r') \<Longrightarrow> columns L \<le> length rc \<Longrightarrow> Suc (validRowCount v) = batchSize \<Longrightarrow>
   \<not> exec_fails e d (butlast (insertStmt v @ placeholders L)) (vals v @ take (columns L) rc) \<Longrightarrow>
   loop L e r v d =
     loop L e r'
       (v\<lparr>vals := [], insertStmt := insertHead L, validRowCount := 0,
          totalMovies := totalMovies v + 100, rowNumber := rowNumber v + 1\<rparr>)
       (d\<lparr>pending := pending d @ bound_rows (columns L) (vals v @ take (columns L) rc),
          calls := calls d @ [Exec (butlast (insertStmt v @ placeholders L)) (vals v @ take (columns L) rc)]\<rparr>)"
  by (subst loop.simps) (simp add: Let_def tx_Exec_def)

lemma results_EOF: "Read r = (Fail EOF, r') \<Longrightarrow> results r = []"
  by (subst results.simps) simp
lemma results_Fail: "Read r = (Fail err, r') \<Longrightarrow> err \<noteq> EOF \<Longrightarrow> results r = Fail err # results r'"
  by (subst results.simps) simp
lemma results_Rec: "Read r = (Rec rc, r') \<Longrightarrow> results r = Rec rc # results r'"
  by (subst results.simps) simp

lemma Read_shrinks: "Read r = (x, r') \<Longrightarrow> x \<noteq> Fail EOF \<Longrightarrow> length (input r') < length (input r)"
  by (auto simp: Read_def split: list.splits line.splits if_splits)

text \<open>An induction rule for the loop in terms of its six ways through the body.\<close>
lemma loop_cases_induct [consumes 0, case_names EOF skip panic add flush_fail flush_ok]:
  assumes "\<And>r r' v d. Read r = (Fail EOF, r') \<Longrightarrow> P r v d"
    and "\<And>r r' err v d. Read r = (Fail err, r') \<Longrightarrow> err \<noteq> EOF \<Longrightarrow>
           P r' (v\<lparr>rowNumber := rowNumber v + 1\<rparr>) d \<Longrightarrow> P r v d"
    and "\<And>r r' rc v d. Read r = (Rec rc, r') \<Longrightarrow> length rc < columns L \<Longrightarrow> P r v d"
    and "\<And>r r' rc v d. Read r = (Rec rc, r') \<Longrightarrow> columns L \<le> length rc \<Longrightarrow>
           Suc (validRowCount v) \<noteq> batchSize \<Longrightarrow>
           P r' (v\<lparr>vals := vals v @ take (columns L) rc,
                     insertStmt := insertStmt v @ placeholders L,
                     validRowCount := Suc (validRowCount v),
                     rowNumber := rowNumber v + 1\<rparr>) d \<Longrightarrow> P r v d"
    and "\<And>r r' rc v d. Read r = (Rec rc, r') \<Longrightarrow> columns L \<le> length rc \<Longrightarrow>
           Suc (validRowCount v) = batchSize \<Longrightarrow>
           exec_fails e d (butlast (insertStmt v @ placeholders L)) (vals v @ take (columns L) rc) \<Longrightarrow>
           P r v d"
    and "\<And>r r' rc v d. Read r = (Rec rc, r') \<Longrightarrow> columns L \<le> length rc \<Longrightarrow>
           Suc (validRowCount v) = batchSize \<Longrightarrow>
           \<not> exec_fails e d (butlast (insertStmt v @ placeholders L)) (vals v @ take (columns L) rc) \<Longrightarrow>
           P r' (v\<lparr>vals := [], insertStmt := insertHead L, validRowCount := 0,
                   totalMovies := totalMovies v + 100, rowNumber := rowNumber v + 1\<rparr>)
             (d\<lparr>pending := pending d @ bound_rows (columns L) (vals v @ take (columns L) rc),
                calls := calls d @ [Exec (butlast (insertStmt v @ placeholders L)) (vals v @ take (columns L) rc)]\<rparr>)
           \<Longrightarrow> P r v d"
  shows "P r v d"
proof -
  have "length (input r) = n \<Longrightarrow> P r v d" for n r v d
  proof (induction n arbitrary: r v d rule: less_induct)
    case (less n r v d)
    obtain x r' where R: "Read r = (x, r')" by (cases "Read r")
    have IH: "length (input r') < length (input r) \<Longrightarrow> P r' v' d'" for v' d'
      using less by blast
    show ?case
    proof (cases x)
      case (Fail err)
      show ?thesis
      proof (cases "err = EOF")
        case True
        with R Fail show ?thesis using assms(1) by blast
      next
        case False
        with R Fail have "length (input r') < length (input r)" by (auto dest: Read_shrinks)
        with IH R Fail False show ?thesis using assms(2) by blast
      qed
    next
      case (Rec rc)
      with R have sh: "length (input r') < length (input r)" by (auto dest: Read_shrinks)
      show ?thesis
      proof (cases "length rc < columns L")
        case True
        with R Rec show ?thesis using assms(3) by blast
      next
        case False
        then have le: "columns L \<le> length rc" by simp
        show ?thesis
        proof (cases "Suc (validRowCount v) = batchSize")
          case ne: False
          show ?thesis using assms(4) R Rec le ne IH[OF sh] by blast
        next
          case eq: True
          show ?thesis
          proof (cases "exec_fails e d (butlast (insertStmt v @ placeholders L)) (vals v @ take (columns L) rc)")
            case True
            then show ?thesis using assms(5) R Rec le eq by blast
          next
            case False
            then show ?thesis using assms(6) R Rec le eq IH[OF sh] by blast
          qed
        qed
      qed
    qed
  qed
  then show ?thesis by blast
qed


section \<open>Rows, batches and what a run of the loop leaves behind\<close>

lemma batches_append: "batches (xs @ ys) = batches xs @ batches ys"
  by (induction xs rule: batches.induct) auto

lemma bound_rows_Nil: "bound_rows n [] = []"
  by (simp add: bound_rows.simps)

lemma bound_rows_append:
  "length xs = c * k \<Longrightarrow> bound_rows c (xs @ ys) = bound_rows c xs @ bound_rows c ys"
proof (induction k arbitrary: xs)
  case 0
  then show ?case by (simp add: bound_rows_Nil)
next
  case (Suc k)
  show ?case
  proof (cases "c = 0")
    case True
    then show ?thesis by (simp add: bound_rows.simps)
  next
    case False
    with Suc.prems have ne: "xs \<noteq> []" and le: "c \<le> length xs" by auto
    have dl: "length (drop c xs) = c * k" using Suc.prems by simp
    have "bound_rows c (xs @ ys) = take c xs # bound_rows c (drop c xs @ ys)"
      using False ne le by (subst bound_rows.simps) simp
    also have "\<dots> = take c xs # (bound_rows c (drop c xs) @ bound_rows c ys)"
      using Suc.IH[OF dl] by simp
    also have "\<dots> = bound_rows c xs @ bound_rows c ys"
      using False ne by (subst (2) bound_rows.simps) simp
    finally show ?thesis .
  qed
qed

lemma bound_rows_single: "0 < c \<Longrightarrow> length xs = c \<Longrightarrow> bound_rows c xs = [xs]"
  by (subst bound_rows.simps) (auto simp: bound_rows_Nil)

lemma bound_rows_rows:
  "0 < c \<Longrightarrow> \<forall>rc\<in>set rs. c \<le> length rc \<Longrightarrow> bound_rows c (concat (map (take c) rs)) = map (take c) rs"
proof (induction rs)
  case Nil
  then show ?case by (simp add: bound_rows_Nil)
next
  case (Cons rc rs)
  have "bound_rows c (take c rc @ concat (map (take c) rs)) = bound_rows c (take c rc) @ bound_rows c (concat (map (take c) rs))"
    using Cons.prems by (intro bound_rows_append[where k = 1]) simp
  with Cons show ?case by (simp add: bound_rows_single)
qed

lemma full_len:
  "Suc k = b \<Longrightarrow> length xs = c * k \<Longrightarrow> c \<le> length rc \<Longrightarrow> length (xs @ take c rc) = c * b"
  by (auto simp: min_def)

lemma loop_frame:
  assumes "loop L e r v d = (f, v', d')"
    and "length (vals v) = columns L * validRowCount v"
    and "validRowCount v < batchSize"
  shows "rows d' = rows d \<and>
         (\<exists>cs. calls d' = calls d @ cs \<and> Begin \<notin> set cs \<and> Commit \<notin> set cs \<and> Rollback \<notin> set cs \<and>
               (\<forall>a\<in>set (batches cs). length a = columns L * batchSize))"
  using assms
proof (induction r v d rule: loop_cases_induct[where L = L and e = e])
  case (EOF r r' v d)
  then show ?case by (simp add: loop_EOF)
next
  case (skip r r' err v d)
  then show ?case by (simp add: loop_skip)
next
  case (panic r r' rc v d)
  then show ?case by (simp add: loop_panic)
next
  case (add r r' rc v d)
  then show ?case by (simp add: loop_add)
next
  case (flush_fail r r' rc v d)
  have "length (vals v @ take (columns L) rc) = columns L * batchSize"
    using flush_fail by (intro full_len) auto
  moreover from flush_fail have "rows d' = rows d"
    and "calls d' = calls d @ [Exec (butlast (insertStmt v @ placeholders L)) (vals v @ take (columns L) rc)]"
    by (auto simp: loop_flush_fail)
  ultimately show ?case by simp
next
  case (flush_ok r r' rc v d)
  from flush_ok.prems flush_ok.hyps
  have "rows d' = rows d \<and>
    (\<exists>cs. calls d' = (calls d @ [Exec (butlast (insertStmt v @ placeholders L)) (vals v @ take (columns L) rc)]) @ cs \<and>
      Begin \<notin> set cs \<and> Commit \<notin> set cs \<and> Rollback \<notin> set cs \<and>
      (\<forall>a\<in>set (batches cs). length a = columns L * batchSize))"
    using flush_ok.IH by (simp add: loop_flush_ok batchSize_def)
  then obtain cs where cs: "rows d' = rows d"
      "calls d' = calls d @ Exec (butlast (insertStmt v @ placeholders L)) (vals v @ take (columns L) rc) # cs"
      "Begin \<notin> set cs" "Commit \<notin> set cs" "Rollback \<notin> set cs"
      "\<forall>a\<in>set (batches cs). length a = columns L * batchSize"
    by auto
  have "length (vals v @ take (columns L) rc) = columns L * batchSize"
    using flush_ok.prems flush_ok.hyps by (intro full_len) auto
  with cs show ?case by auto
qed


lemma records_EOF: "Read r = (Fail EOF, r') \<Longrightarrow> records r = []"
  by (simp add: records_def results_EOF)
lemma records_Fail: "Read r = (Fail err, r') \<Longrightarrow> err \<noteq> EOF \<Longrightarrow> records r = records r'"
  by (simp add: records_def results_Fail)
lemma records_Rec: "Read r = (Rec rc, r') \<Longrightarrow> records r = rc # records r'"
  by (simp add: records_def results_Rec)

lemma loop_Break:
  assumes "loop L e r v d = (Break, v', d')"
    and "length (vals v) = columns L * validRowCount v"
    and "validRowCount v < batchSize"
  shows "\<exists>cs. calls d' = calls d @ cs \<and>
           concat (batches cs) @ vals v' = vals v @ concat (map (take (columns L)) (records r)) \<and>
           length (batches cs) = (validRowCount v + length (records r)) div batchSize \<and>
           validRowCount v' = (validRowCount v + length (records r)) mod batchSize \<and>
           length (vals v') = columns L * validRowCount v' \<and>
           pending d' = pending d @ bound_rows (columns L) (concat (batches cs)) \<and>
           totalMovies v' = totalMovies v + 100 * length (batches cs) \<and>
           (\<forall>rc\<in>set (records r). columns L \<le> length rc)"
  using assms
proof (induction r v d rule: loop_cases_induct[where L = L and e = e])
  case (EOF r r' v d)
  then show ?case by (simp add: loop_EOF records_EOF bound_rows_Nil)
next
  case (skip r r' err v d)
  then show ?case by (simp add: loop_skip records_Fail)
next
  case (panic r r' rc v d)
  then show ?case by (simp add: loop_panic)
next
  case (add r r' rc v d)
  from add.prems add.hyps have "validRowCount v + 1 < batchSize" by simp
  with add show ?case by (simp add: loop_add records_Rec min_def)
next
  case (flush_fail r r' rc v d)
  then show ?case by (simp add: loop_flush_fail)
next
  case (flush_ok r r' rc v d)
  let ?A = "vals v @ take (columns L) rc"
  let ?s = "butlast (insertStmt v @ placeholders L)"
  have lenA: "length ?A = columns L * batchSize"
    using flush_ok.prems flush_ok.hyps by (intro full_len) auto
  from flush_ok.prems flush_ok.hyps flush_ok.IH
  obtain cs where cs:
      "calls d' = (calls d @ [Exec ?s ?A]) @ cs"
      "concat (batches cs) @ vals v' = concat (map (take (columns L)) (records r'))"
      "length (batches cs) = length (records r') div batchSize"
      "validRowCount v' = length (records r') mod batchSize"
      "length (vals v') = columns L * validRowCount v'"
      "pending d' = (pending d @ bound_rows (columns L) ?A) @ bound_rows (columns L) (concat (batches cs))"
      "totalMovies v' = (totalMovies v + 100) + 100 * length (batches cs)"
      "\<forall>rc\<in>set (records r'). columns L \<le> length rc"
    by (auto simp: loop_flush_ok batchSize_def)
  have K: "validRowCount v + length (records r) = batchSize + length (records r')"
    using flush_ok.hyps by (simp add: records_Rec)
  have "calls d' = calls d @ (Exec ?s ?A # cs)" using cs(1) by simp
  moreover have "concat (batches (Exec ?s ?A # cs)) @ vals v' =
      vals v @ concat (map (take (columns L)) (records r))"
    using cs(2) flush_ok.hyps by (simp add: records_Rec)
  moreover have "length (batches (Exec ?s ?A # cs)) = (validRowCount v + length (records r)) div batchSize"
    using cs(3) K by (simp add: batchSize_def)
  moreover have "validRowCount v' = (validRowCount v + length (records r)) mod batchSize"
    using cs(4) K by (simp add: batchSize_def)
  moreover have "pending d' = pending d @ bound_rows (columns L) (concat (batches (Exec ?s ?A # cs)))"
    using cs(6) bound_rows_append[OF lenA, of "concat (batches cs)"] by simp
  moreover have "totalMovies v' = totalMovies v + 100 * length (batches (Exec ?s ?A # cs))"
    using cs(7) by simp
  moreover have "\<forall>rc\<in>set (records r). columns L \<le> length rc"
    using cs(8) flush_ok.hyps by (simp add: records_Rec)
  ultimately show ?case using cs(5) by blast
qed


lemma loop_Exit:
  assumes "loop L e r v d = (Exit out, v', d')"
    and "length (vals v) = columns L * validRowCount v"
    and "validRowCount v < batchSize"
  shows "(out = Panic \<and> (\<exists>rc\<in>set (records r). length rc < columns L)) \<or>
         (out = Return (Some ExecError) \<and>
          (\<exists>cs. calls d' = calls d @ cs \<and> batches cs \<noteq> [] \<and>
                length (batches cs) \<le> (validRowCount v + length (records r)) div batchSize \<and>
                (\<exists>rest. concat (batches cs) @ rest = vals v @ concat (map (take (columns L)) (records r)))))"
  using assms
proof (induction r v d rule: loop_cases_induct[where L = L and e = e])
  case (EOF r r' v d)
  then show ?case by (simp add: loop_EOF)
next
  case (skip r r' err v d)
  then show ?case by (simp add: loop_skip records_Fail)
next
  case (panic r r' rc v d)
  then show ?case by (simp add: loop_panic records_Rec)
next
  case (add r r' rc v d)
  from add.prems add.hyps have "validRowCount v + 1 < batchSize" by simp
  with add show ?case by (simp add: loop_add records_Rec min_def)
next
  case (flush_fail r r' rc v d)
  let ?A = "vals v @ take (columns L) rc"
  let ?s = "butlast (insertStmt v @ placeholders L)"
  from flush_fail have o: "out = Return (Some ExecError)" and c: "calls d' = calls d @ [Exec ?s ?A]"
    by (auto simp: loop_flush_fail)
  have "1 \<le> (validRowCount v + length (records r)) div batchSize"
    using flush_fail.hyps by (simp add: records_Rec batchSize_def)
  moreover have "concat (batches [Exec ?s ?A]) @ concat (map (take (columns L)) (records r')) =
      vals v @ concat (map (take (columns L)) (records r))"
    using flush_fail.hyps by (simp add: records_Rec)
  ultimately show ?case using o c by (intro disjI2 conjI exI[of _ "[Exec ?s ?A]"]) auto
next
  case (flush_ok r r' rc v d)
  let ?A = "vals v @ take (columns L) rc"
  let ?s = "butlast (insertStmt v @ placeholders L)"
  from flush_ok.prems flush_ok.hyps flush_ok.IH
  have "(out = Panic \<and> (\<exists>rc\<in>set (records r'). length rc < columns L)) \<or>
         (out = Return (Some ExecError) \<and>
          (\<exists>cs. calls d' = (calls d @ [Exec ?s ?A]) @ cs \<and> batches cs \<noteq> [] \<and>
                length (batches cs) \<le> length (records r') div batchSize \<and>
                (\<exists>rest. concat (batches cs) @ rest = concat (map (take (columns L)) (records r')))))"
    by (simp add: loop_flush_ok batchSize_def)
  then show ?case
  proof
    assume "out = Panic \<and> (\<exists>rc\<in>set (records r'). length rc < columns L)"
    then show ?thesis using flush_ok.hyps by (auto simp: records_Rec)
  next
    assume "out = Return (Some ExecError) \<and>
          (\<exists>cs. calls d' = (calls d @ [Exec ?s ?A]) @ cs \<and> batches cs \<noteq> [] \<and>
                length (batches cs) \<le> length (records r') div batchSize \<and>
                (\<exists>rest. concat (batches cs) @ rest = concat (map (take (columns L)) (records r'))))"
    then obtain cs rest where o: "out = Return (Some ExecError)"
      and cs: "calls d' = calls d @ (Exec ?s ?A # cs)" "batches cs \<noteq> []"
        "length (batches cs) \<le> length (records r') div batchSize"
        "concat (batches cs) @ rest = concat (map (take (columns L)) (records r'))"
      by auto
    have K: "validRowCount v + length (records r) = batchSize + length (records r')"
      using flush_ok.hyps by (simp add: records_Rec)
    have "length (batches (Exec ?s ?A # cs)) \<le> (validRowCount v + length (records r)) div batchSize"
      using cs(3) K by (simp add: batchSize_def)
    moreover have "concat (batches (Exec ?s ?A # cs)) @ rest =
        vals v @ concat (map (take (columns L)) (records r))"
      using cs(4) flush_ok.hyps by (simp add: records_Rec)
    ultimately show ?thesis using o cs(1)
      by (intro disjI2 conjI exI[of _ "Exec ?s ?A # cs"] exI[of _ rest]) auto
  qed
qed

lemma records_fields:
  "0 < FieldsPerRecord r \<Longrightarrow> rc \<in> set (records r) \<Longrightarrow> length rc = FieldsPerRecord r"
proof (induction "length (input r)" arbitrary: r rule: less_induct)
  case less
  obtain x r' where R: "Read r = (x, r')" by (cases "Read r")
  show ?case
  proof (cases x)
    case (Fail err)
    show ?thesis
    proof (cases "err = EOF")
      case True
      with R Fail less.prems show ?thesis by (simp add: records_EOF)
    next
      case False
      with R Fail have "length (input r') < length (input r)" "FieldsPerRecord r' = FieldsPerRecord r"
        by (auto simp: Read_def split: list.splits line.splits if_splits)
      with less R Fail False show ?thesis by (simp add: records_Fail)
    qed
  next
    case (Rec rc')
    with R less.prems(1) have "length (input r') < length (input r)" "FieldsPerRecord r' = FieldsPerRecord r"
        "length rc' = FieldsPerRecord r"
      by (auto simp: Read_def split: list.splits line.splits if_splits)
    with less R Rec show ?thesis by (auto simp: records_Rec)
  qed
qed

lemma header_fields:
  "Read (NewReader ls) = (Rec h, r) \<Longrightarrow> FieldsPerRecord r = length h"
  by (auto simp: Read_def NewReader_def split: list.splits line.splits if_splits)

lemma validateHeaders_nonempty: "validateHeaders n h \<Longrightarrow> h \<noteq> []"
  by (auto simp: validateHeaders_def split: if_splits)


section \<open>The ways through a populate function\<close>

lemma deferred_nil: "deferred None d = d"
  by (simp add: deferred_def)

lemma populate_cases [consumes 1, case_names open_fail header_fail invalid begin_fail loop_exit flush_fail commit_fail success]:
  assumes "populate L e src d = (out, tot, d')"
  obtains "src = None" "out = Return (Some OpenError)" "tot = None" "d' = d"
  | ls err r where "src = Some ls" "Read (NewReader ls) = (Fail err, r)"
      "out = Return (Some err)" "tot = None" "d' = d"
  | ls h r where "src = Some ls" "Read (NewReader ls) = (Rec h, r)"
      "\<not> validateHeaders (tableName L) h" "out = Return None" "tot = None" "d' = d"
  | ls h r where "src = Some ls" "Read (NewReader ls) = (Rec h, r)"
      "validateHeaders (tableName L) h" "begin_fails e d"
      "out = Return (Some BeginError)" "tot = None" "d' = d\<lparr>calls := calls d @ [Begin]\<rparr>"
  | ls h r v where "src = Some ls" "Read (NewReader ls) = (Rec h, r)"
      "validateHeaders (tableName L) h" "\<not> begin_fails e d"
      "loop L e r (initVars L) (d\<lparr>pending := [], calls := calls d @ [Begin]\<rparr>) = (Exit out, v, d')"
      "tot = None"
  | ls h r v d2 where "src = Some ls" "Read (NewReader ls) = (Rec h, r)"
      "validateHeaders (tableName L) h" "\<not> begin_fails e d"
      "loop L e r (initVars L) (d\<lparr>pending := [], calls := calls d @ [Begin]\<rparr>) = (Break, v, d2)"
      "vals v \<noteq> []" "exec_fails e d2 (butlast (insertStmt v)) (vals v)"
      "out = Return (Some ExecError)" "tot = None"
      "d' = d2\<lparr>calls := calls d2 @ [Exec (butlast (insertStmt v)) (vals v)]\<rparr>"
  | ls h r v d2 d3 where "src = Some ls" "Read (NewReader ls) = (Rec h, r)"
      "validateHeaders (tableName L) h" "\<not> begin_fails e d"
      "loop L e r (initVars L) (d\<lparr>pending := [], calls := calls d @ [Begin]\<rparr>) = (Break, v, d2)"
      "d3 = (if vals v = [] then d2
             else d2\<lparr>pending := pending d2 @ bound_rows (columns L) (vals v),
                     calls := calls d2 @ [Exec (butlast (insertStmt v)) (vals v)]\<rparr>)"
      "commit_fails e d3"
      "out = Return (Some CommitError)" "tot = None" "d' = d3\<lparr>calls := calls d3 @ [Commit]\<rparr>"
  | ls h r v d2 d3 where "src = Some ls" "Read (NewReader ls) = (Rec h, r)"
      "validateHeaders (tableName L) h" "\<not> begin_fails e d"
      "loop L e r (initVars L) (d\<lparr>pending := [], calls := calls d @ [Begin]\<rparr>) = (Break, v, d2)"
      "d3 = (if vals v = [] then d2
             else d2\<lparr>pending := pending d2 @ bound_rows (columns L) (vals v),
                     calls := calls d2 @ [Exec (butlast (insertStmt v)) (vals v)]\<rparr>)"
      "\<not> commit_fails e d3"
      "out = Return None"
      "tot = Some (if vals v = [] then totalMovies v else totalMovies v + length (vals v) div columns L)"
      "d' = d3\<lparr>rows := rows d3 @ pending d3, pending := [], calls := calls d3 @ [Commit]\<rparr>"
proof (cases src)
  case None
  with assms that(1) show ?thesis by (simp add: populate_def)
next
  case (Some ls)
  obtain x r where R: "Read (NewReader ls) = (x, r)" by (cases "Read (NewReader ls)")
  show ?thesis
  proof (cases x)
    case (Fail err)
    with assms Some R that(2) show ?thesis by (simp add: populate_def)
  next
    case (Rec h)
    show ?thesis
    proof (cases "validateHeaders (tableName L) h")
      case False
      with assms Some R Rec that(3) show ?thesis by (simp add: populate_def)
    next
      case valid: True
      show ?thesis
      proof (cases "begin_fails e d")
        case True
        with assms Some R Rec valid that(4) show ?thesis
          by (simp add: populate_def db_Begin_def)
      next
        case nb: False
        let ?d1 = "d\<lparr>pending := [], calls := calls d @ [Begin]\<rparr>"
        obtain f v d2 where Lp: "loop L e r (initVars L) ?d1 = (f, v, d2)"
          by (cases "loop L e r (initVars L) ?d1")
        have P: "populate L e (Some ls) d =
            (case f of
               Exit out \<Rightarrow> (out, None, d2)
             | Break \<Rightarrow>
                 (case (if 0 < length (vals v)
                        then tx_Exec e (columns L) (butlast (insertStmt v)) (vals v) d2
                        else (None, d2)) of
                    (Some err', d3) \<Rightarrow> (Return (Some err'), None, d3)
                  | (None, d3) \<Rightarrow>
                      (case tx_Commit e d3 of
                         (Some err', d4) \<Rightarrow> (Return (Some err'), None, d4)
                       | (None, d4) \<Rightarrow>
                           (Return None,
                            Some (if 0 < length (vals v)
                                  then totalMovies v + length (vals v) div columns L
                                  else totalMovies v), d4))))"
          using R Rec valid nb Lp
          by (auto simp: populate_def db_Begin_def deferred_nil Let_def
              split: flow.splits prod.splits option.splits)
        show ?thesis
        proof (cases f)
          case (Exit out')
          with assms Some P Lp that(5)[OF Some R[unfolded Rec] valid nb] show ?thesis by simp
        next
          case Break
          show ?thesis
          proof (cases "vals v \<noteq> [] \<and> exec_fails e d2 (butlast (insertStmt v)) (vals v)")
            case True
            with assms Some P Lp Break that(6)[OF Some R[unfolded Rec] valid nb] show ?thesis
              by (simp add: tx_Exec_def)
          next
            case False
            let ?d3 = "if vals v = [] then d2
                       else d2\<lparr>pending := pending d2 @ bound_rows (columns L) (vals v),
                               calls := calls d2 @ [Exec (butlast (insertStmt v)) (vals v)]\<rparr>"
            have E: "(if 0 < length (vals v)
                        then tx_Exec e (columns L) (butlast (insertStmt v)) (vals v) d2
                        else (None, d2)) = (None, ?d3)"
              using False by (auto simp: tx_Exec_def)
            show ?thesis
            proof (cases "commit_fails e ?d3")
              case True
              with assms Some P Lp Break E that(7)[OF Some R[unfolded Rec] valid nb _ refl] show ?thesis
                by (simp add: tx_Commit_def)
            next
              case nc: False
              from nc assms Some P Lp Break E
              have "out = Return None"
                and "tot = Some (if vals v = [] then totalMovies v
                                 else totalMovies v + length (vals v) div columns L)"
                and "d' = ?d3\<lparr>rows := rows ?d3 @ pending ?d3, pending := [], calls := calls ?d3 @ [Commit]\<rparr>"
                by (auto simp: tx_Commit_def)
              with nc Lp Break that(8)[OF Some R[unfolded Rec] valid nb _ refl] show ?thesis
                by blast
            qed
          qed
        qed
      qed
    qed
  qed
qed



section \<open>What a load hands to the transaction and leaves in the table\<close>

lemma issued_append: "calls d' = calls d @ cs \<Longrightarrow> issued d d' = cs"
  by (simp add: issued_def)

lemma concat_length: "\<forall>a\<in>set bs. length a = c * m \<Longrightarrow> length (concat bs) = c * (m * length bs)"
  by (induction bs) (auto simp: algebra_simps)

lemma loop_init_Break:
  assumes L: "loop L e r (initVars L) (d\<lparr>pending := [], calls := calls d @ [Begin]\<rparr>) = (Break, v, d2)"
    and c: "0 < columns L"
  shows "\<exists>cs. calls d2 = calls d @ Begin # cs \<and> rows d2 = rows d \<and>
    Begin \<notin> set cs \<and> Commit \<notin> set cs \<and> Rollback \<notin> set cs \<and>
    (\<forall>a\<in>set (batches cs). length a = columns L * batchSize) \<and>
    concat (batches cs) @ vals v = concat (map (take (columns L)) (records r)) \<and>
    length (batches cs) = length (records r) div batchSize \<and>
    length (vals v) = columns L * (length (records r) mod batchSize) \<and>
    pending d2 @ bound_rows (columns L) (vals v) = map (take (columns L)) (records r) \<and>
    totalMovies v = 100 * (length (records r) div batchSize) \<and>
    (\<forall>rc\<in>set (records r). columns L \<le> length rc)"
proof -
  have i1: "length (vals (initVars L)) = columns L * validRowCount (initVars L)"
    and i2: "validRowCount (initVars L) < batchSize"
    by (simp_all add: initVars_def batchSize_def)
  let ?d1 = "d\<lparr>pending := [], calls := calls d @ [Begin]\<rparr>"
  from loop_frame[OF L i1 i2] obtain cs where f:
      "rows d2 = rows ?d1" "calls d2 = calls ?d1 @ cs"
      "Begin \<notin> set cs" "Commit \<notin> set cs" "Rollback \<notin> set cs"
      "\<forall>a\<in>set (batches cs). length a = columns L * batchSize"
    by blast
  from loop_Break[OF L i1 i2] obtain cs' where b:
      "calls d2 = calls ?d1 @ cs'"
      "concat (batches cs') @ vals v = vals (initVars L) @ concat (map (take (columns L)) (records r))"
      "length (batches cs') = (validRowCount (initVars L) + length (records r)) div batchSize"
      "validRowCount v = (validRowCount (initVars L) + length (records r)) mod batchSize"
      "length (vals v) = columns L * validRowCount v"
      "pending d2 = pending ?d1 @ bound_rows (columns L) (concat (batches cs'))"
      "totalMovies v = totalMovies (initVars L) + 100 * length (batches cs')"
      "\<forall>rc\<in>set (records r). columns L \<le> length rc"
    by blast
  from f(2) b(1) have eq: "cs' = cs" by simp
  have all: "concat (batches cs) @ vals v = concat (map (take (columns L)) (records r))"
    using b(2) eq by (simp add: initVars_def)
  have len: "length (concat (batches cs)) = columns L * (batchSize * length (batches cs))"
    using f(6) by (rule concat_length)
  have "pending d2 @ bound_rows (columns L) (vals v) =
      bound_rows (columns L) (concat (batches cs) @ vals v)"
    using b(6) eq bound_rows_append[OF len, of "vals v"] by simp
  also have "\<dots> = map (take (columns L)) (records r)"
    using all bound_rows_rows[OF c b(8)] by simp
  finally have p: "pending d2 @ bound_rows (columns L) (vals v) = map (take (columns L)) (records r)" .
  have "calls d2 = calls d @ Begin # cs" and "rows d2 = rows d"
    using f(1,2) by simp_all
  moreover have "length (batches cs) = length (records r) div batchSize"
    and "length (vals v) = columns L * (length (records r) mod batchSize)"
    and "totalMovies v = 100 * (length (records r) div batchSize)"
    using b(3,4,5,7) eq by (simp_all add: initVars_def)
  ultimately show ?thesis using f(3,4,5,6) all p b(8) by blast
qed

lemma populate_table:
  assumes run: "populate L e src d = (out, tot, d')" and c: "0 < columns L"
  shows "(tot = None \<longrightarrow> rows d' = rows d) \<and> (out \<noteq> Return None \<longrightarrow> tot = None) \<and>
         (tot \<noteq> None \<longrightarrow> out = Return None \<and>
            (\<exists>ls h r. src = Some ls \<and> Read (NewReader ls) = (Rec h, r) \<and>
               validateHeaders (tableName L) h \<and>
               rows d' = rows d @ map (take (columns L)) (records r)))"
  using run
proof (cases rule: populate_cases)
  case (loop_exit ls h r v)
  have "length (vals (initVars L)) = columns L * validRowCount (initVars L)"
    and "validRowCount (initVars L) < batchSize"
    by (simp_all add: initVars_def batchSize_def)
  from loop_frame[OF loop_exit(5) this] have "rows d' = rows d" by simp
  moreover have "out \<noteq> Return None"
    using loop_Exit[OF loop_exit(5)] by (auto simp: initVars_def batchSize_def)
  ultimately show ?thesis using loop_exit by simp
next
  case (flush_fail ls h r v d2)
  from loop_init_Break[OF flush_fail(5) c] have "rows d2 = rows d" by blast
  with flush_fail show ?thesis by simp
next
  case (commit_fail ls h r v d2 d3)
  from loop_init_Break[OF commit_fail(5) c] have "rows d2 = rows d" by blast
  with commit_fail show ?thesis by simp
next
  case (success ls h r v d2 d3)
  from loop_init_Break[OF success(5) c]
  have r: "rows d2 = rows d"
    and p: "pending d2 @ bound_rows (columns L) (vals v) = map (take (columns L)) (records r)"
    by blast+
  have "rows d3 = rows d" using r success(6) by simp
  moreover have "pending d3 = map (take (columns L)) (records r)"
    using p success(6) by (auto simp: bound_rows_Nil)
  ultimately show ?thesis using success by simp
qed simp_all


lemma accepted_count: "length (accepted xs) = length xs - skipped xs \<and> skipped xs \<le> length xs"
  by (induction xs rule: accepted.induct) auto

lemma records_count: "length (records r) = length (results r) - skipped (results r)"
  by (simp add: records_def accepted_count)

lemma init_inv:
  "length (vals (initVars L)) = columns L * validRowCount (initVars L)"
  "validRowCount (initVars L) < batchSize"
  by (simp_all add: initVars_def batchSize_def)

text \<open>The batches of any run have between 1 and 100 rows.\<close>

lemma populate_batch_sizes:
  assumes run: "populate L e src d = (out, tot, d')" and c: "0 < columns L"
    and a: "a \<in> set (batches (issued d d'))"
  shows "\<exists>k. 1 \<le> k \<and> k \<le> 100 \<and> length a = columns L * k"
  using run
proof (cases rule: populate_cases)
  case open_fail
  with a show ?thesis by (simp add: issued_def)
next
  case (header_fail ls err r)
  with a show ?thesis by (simp add: issued_def)
next
  case (invalid ls h r)
  with a show ?thesis by (simp add: issued_def)
next
  case (begin_fail ls h r)
  with a show ?thesis by (simp add: issued_def)
next
  case (loop_exit ls h r v)
  from loop_frame[OF loop_exit(5) init_inv] obtain cs where
    cs: "calls d' = calls d @ Begin # cs" "\<forall>a\<in>set (batches cs). length a = columns L * batchSize"
    by auto
  from cs(1) have "issued d d' = Begin # cs" by (rule issued_append)
  with a cs(2) have "length a = columns L * 100" by (simp add: batchSize_def)
  then show ?thesis by (intro exI[of _ 100]) simp
next
  case (flush_fail ls h r v d2)
  from loop_init_Break[OF flush_fail(5) c] obtain cs where
    cs: "calls d2 = calls d @ Begin # cs" "\<forall>a\<in>set (batches cs). length a = columns L * batchSize"
      "length (vals v) = columns L * (length (records r) mod batchSize)"
    by blast
  from cs(1) flush_fail have "issued d d' = Begin # cs @ [Exec (butlast (insertStmt v)) (vals v)]"
    by (intro issued_append) simp
  with a have "a \<in> set (batches cs) \<or> a = vals v" by (auto simp: batches_append)
  then show ?thesis
  proof
    assume "a \<in> set (batches cs)"
    with cs(2) have "length a = columns L * 100" by (simp add: batchSize_def)
    then show ?thesis by (intro exI[of _ 100]) simp
  next
    assume "a = vals v"
    moreover from flush_fail(6) cs(3) have "1 \<le> length (records r) mod batchSize"
      by (cases "length (records r) mod batchSize") auto
    moreover have "length (records r) mod batchSize \<le> 100" by (simp add: batchSize_def)
    ultimately show ?thesis using cs(3) by blast
  qed
next
  case (commit_fail ls h r v d2 d3)
  from loop_init_Break[OF commit_fail(5) c] obtain cs where
    cs: "calls d2 = calls d @ Begin # cs" "\<forall>a\<in>set (batches cs). length a = columns L * batchSize"
      "length (vals v) = columns L * (length (records r) mod batchSize)"
    by blast
  from cs(1) commit_fail
  have "issued d d' = Begin # cs @ (if vals v = [] then [] else [Exec (butlast (insertStmt v)) (vals v)]) @ [Commit]"
    by (intro issued_append) simp
  with a have "a \<in> set (batches cs) \<or> (vals v \<noteq> [] \<and> a = vals v)"
    by (auto simp: batches_append split: if_splits)
  then show ?thesis
  proof
    assume "a \<in> set (batches cs)"
    with cs(2) have "length a = columns L * 100" by (simp add: batchSize_def)
    then show ?thesis by (intro exI[of _ 100]) simp
  next
    assume av: "vals v \<noteq> [] \<and> a = vals v"
    with cs(3) have "1 \<le> length (records r) mod batchSize"
      by (cases "length (records r) mod batchSize") auto
    moreover have "length (records r) mod batchSize \<le> 100" by (simp add: batchSize_def)
    ultimately show ?thesis using cs(3) av by blast
  qed
next
  case (success ls h r v d2 d3)
  from loop_init_Break[OF success(5) c] obtain cs where
    cs: "calls d2 = calls d @ Begin # cs" "\<forall>a\<in>set (batches cs). length a = columns L * batchSize"
      "length (vals v) = columns L * (length (records r) mod batchSize)"
    by blast
  from cs(1) success
  have "issued d d' = Begin # cs @ (if vals v = [] then [] else [Exec (butlast (insertStmt v)) (vals v)]) @ [Commit]"
    by (intro issued_append) simp
  with a have "a \<in> set (batches cs) \<or> (vals v \<noteq> [] \<and> a = vals v)"
    by (auto simp: batches_append split: if_splits)
  then show ?thesis
  proof
    assume "a \<in> set (batches cs)"
    with cs(2) have "length a = columns L * 100" by (simp add: batchSize_def)
    then show ?thesis by (intro exI[of _ 100]) simp
  next
    assume av: "vals v \<noteq> [] \<and> a = vals v"
    with cs(3) have "1 \<le> length (records r) mod batchSize"
      by (cases "length (records r) mod batchSize") auto
    moreover have "length (records r) mod batchSize \<le> 100" by (simp add: batchSize_def)
    ultimately show ?thesis using cs(3) av by blast
  qed
qed


text \<open>A run that reaches the end of the stream: the batches it hands to the transaction.\<close>

lemma populate_end_of_stream:
  assumes hd: "Read (NewReader ls) = (Rec h, r)" and valid: "validateHeaders (tableName L) h"
    and nb: "\<not> begin_fails e d"
    and lp: "loop L e r (initVars L) (d\<lparr>pending := [], calls := calls d @ [Begin]\<rparr>) = (Break, v, d2)"
    and run: "populate L e (Some ls) d = (out, tot, d')" and c: "0 < columns L"
  shows "\<exists>full. batches (issued d d') = full @ (if vals v = [] then [] else [vals v]) \<and>
           length full = length (records r) div 100 \<and>
           (\<forall>a\<in>set full. length a = columns L * 100) \<and>
           length (vals v) = columns L * (length (records r) mod 100) \<and>
           concat full @ vals v = concat (map (take (columns L)) (records r)) \<and>
           out \<noteq> Panic \<and>
           (out = Return None \<longrightarrow> tot = Some (length (records r)) \<and>
              length (filter (\<lambda>c. c = Commit) (issued d d')) = 1)"
proof -
  from loop_init_Break[OF lp c] obtain cs where
    cs: "calls d2 = calls d @ Begin # cs" "Commit \<notin> set cs"
      "\<forall>a\<in>set (batches cs). length a = columns L * batchSize"
      "concat (batches cs) @ vals v = concat (map (take (columns L)) (records r))"
      "length (batches cs) = length (records r) div batchSize"
      "length (vals v) = columns L * (length (records r) mod batchSize)"
      "totalMovies v = 100 * (length (records r) div batchSize)"
    by blast
  have nocommit: "filter (\<lambda>c. c = Commit) cs = []"
    using cs(2) by (induction cs) auto
  have total: "(if vals v = [] then totalMovies v else totalMovies v + length (vals v) div columns L)
      = length (records r)"
    using cs(6,7) c by (auto simp: batchSize_def)
  have facts: "length (batches cs) = length (records r) div 100"
      "\<forall>a\<in>set (batches cs). length a = columns L * 100"
      "length (vals v) = columns L * (length (records r) mod 100)"
    using cs(3,5,6) by (simp_all add: batchSize_def)
  from run show ?thesis
  proof (cases rule: populate_cases)
    case (header_fail ls' err r')
    with hd show ?thesis by simp
  next
    case (invalid ls' h' r')
    with hd valid show ?thesis by simp
  next
    case (begin_fail ls' h' r')
    with nb show ?thesis by simp
  next
    case (loop_exit ls' h' r' v')
    with hd lp show ?thesis by simp
  next
    case (flush_fail ls' h' r' v' d2')
    with hd lp have e: "v' = v" "d2' = d2" by simp_all
    with cs(1) flush_fail have "issued d d' = Begin # cs @ [Exec (butlast (insertStmt v)) (vals v)]"
      by (intro issued_append) simp
    with flush_fail e have "batches (issued d d') = batches cs @ (if vals v = [] then [] else [vals v])"
      by (simp add: batches_append)
    with facts cs(4) flush_fail show ?thesis by blast
  next
    case (commit_fail ls' h' r' v' d2' d3)
    with hd lp have e: "v' = v" "d2' = d2" by simp_all
    with cs(1) commit_fail
    have "issued d d' = Begin # cs @ (if vals v = [] then [] else [Exec (butlast (insertStmt v)) (vals v)]) @ [Commit]"
      by (intro issued_append) simp
    then have "batches (issued d d') = batches cs @ (if vals v = [] then [] else [vals v])"
      by (simp add: batches_append)
    with facts cs(4) commit_fail show ?thesis by blast
  next
    case (success ls' h' r' v' d2' d3)
    with hd lp have e: "v' = v" "d2' = d2" by simp_all
    with cs(1) success
    have i: "issued d d' = Begin # cs @ (if vals v = [] then [] else [Exec (butlast (insertStmt v)) (vals v)]) @ [Commit]"
      by (intro issued_append) simp
    then have "batches (issued d d') = batches cs @ (if vals v = [] then [] else [vals v])"
      by (simp add: batches_append)
    moreover from i nocommit have "length (filter (\<lambda>c. c = Commit) (issued d d')) = 1" by simp
    moreover from success(9) e total have "tot = Some (length (records r))"
      by (auto split: if_splits)
    ultimately show ?thesis using facts cs(4) success by blast
  qed simp
qed

lemma populate_success:
  assumes hd: "Read (NewReader ls) = (Rec h, r)"
    and run: "populate L e (Some ls) d = (Return None, Some t, d')" and c: "0 < columns L"
  shows "rows d' = rows d @ map (take (columns L)) (records r) \<and> t = length (records r) \<and>
         length (filter (\<lambda>c. c = Commit) (issued d d')) = 1"
proof -
  from populate_table[OF run c] hd
  have rows: "rows d' = rows d @ map (take (columns L)) (records r)" by auto
  from run obtain v d2 where "validateHeaders (tableName L) h" "\<not> begin_fails e d"
    "loop L e r (initVars L) (d\<lparr>pending := [], calls := calls d @ [Begin]\<rparr>) = (Break, v, d2)"
    using hd by (cases rule: populate_cases) auto
  from populate_end_of_stream[OF hd this run c] rows show ?thesis by auto
qed


lemma loader_columns: "L = moviesLoader \<or> L = moviesGenresLoader \<Longrightarrow> 0 < columns L"
  by (auto simp: moviesLoader_def moviesGenresLoader_def)

lemma loop_never_rejected:
  assumes "\<forall>d s a. \<not> exec_fails e d s a" and "loop L e r v d = (Exit out, v', d')"
  shows "out = Panic"
  using assms(2)
proof (induction r v d rule: loop_cases_induct[where L = L and e = e])
  case (EOF r r' v d)
  then show ?case by (simp add: loop_EOF)
next
  case (skip r r' err v d)
  then show ?case by (simp add: loop_skip)
next
  case (panic r r' rc v d)
  then show ?case by (simp add: loop_panic)
next
  case (add r r' rc v d)
  then show ?case by (simp add: loop_add)
next
  case (flush_fail r r' rc v d)
  with assms(1) show ?case by simp
next
  case (flush_ok r r' rc v d)
  then show ?case by (simp add: loop_flush_ok)
qed

lemma loop_always_rejected:
  assumes "\<forall>d s a. exec_fails e d s a" and "loop L e r v d = (f, v', d')"
  shows "\<exists>cs. calls d' = calls d @ cs \<and> length (batches cs) \<le> 1 \<and> (f = Break \<longrightarrow> batches cs = [])"
  using assms(2)
proof (induction r v d rule: loop_cases_induct[where L = L and e = e])
  case (EOF r r' v d)
  then show ?case by (simp add: loop_EOF)
next
  case (skip r r' err v d)
  then show ?case by (simp add: loop_skip)
next
  case (panic r r' rc v d)
  then show ?case by (simp add: loop_panic)
next
  case (add r r' rc v d)
  then show ?case by (simp add: loop_add)
next
  case (flush_fail r r' rc v d)
  then have "calls d' = calls d @ [Exec (butlast (insertStmt v @ placeholders L)) (vals v @ take (columns L) rc)]"
    and "f \<noteq> Break"
    by (auto simp: loop_flush_fail)
  then show ?case by simp
next
  case (flush_ok r r' rc v d)
  with assms(1) show ?case by simp
qed

lemma records_map_Fields:
  "0 < k \<Longrightarrow> \<forall>rc\<in>set recs. length rc = k \<Longrightarrow>
   records \<lparr>FieldsPerRecord = k, input = map Fields recs\<rparr> = recs"
proof (induction recs)
  case Nil
  have "Read \<lparr>FieldsPerRecord = k, input = []\<rparr> = (Fail EOF, \<lparr>FieldsPerRecord = k, input = []\<rparr>)"
    by (simp add: Read_def)
  then show ?case by (simp add: records_EOF)
next
  case (Cons rc recs)
  then have "Read \<lparr>FieldsPerRecord = k, input = map Fields (rc # recs)\<rparr>
      = (Rec rc, \<lparr>FieldsPerRecord = k, input = map Fields recs\<rparr>)"
    by (simp add: Read_def)
  with Cons show ?case by (simp add: records_Rec)
qed

lemma take_all_rows: "\<forall>rc\<in>set recs. length rc = k \<Longrightarrow> map (take k) recs = recs"
  by (induction recs) auto

lemma concat_rows_length: "\<forall>rc\<in>set recs. length rc = k \<Longrightarrow> length (concat recs) = k * length recs"
  by (induction recs) auto

text \<open>The batches of a load whose header is the expected one, by the number of valid rows.\<close>

lemma populate_by_count:
  assumes hd: "Read (NewReader ls) = (Rec h, r)" and valid: "validateHeaders (tableName L) h"
    and hl: "length h = columns L" and c: "0 < columns L"
    and nb: "\<not> begin_fails e d"
    and run: "populate L e (Some ls) d = (out, tot, d')"
  shows "(length (records r) = 0 \<longrightarrow> batches (issued d d') = []) \<and>
         (1 \<le> length (records r) \<and> length (records r) \<le> 100 \<longrightarrow>
            batches (issued d d') = [concat (records r)]) \<and>
         (0 < length (records r) \<and> length (records r) mod 100 = 0 \<and> out \<noteq> Return (Some ExecError) \<longrightarrow>
            length (batches (issued d d')) = length (records r) div 100 \<and>
            (\<forall>a\<in>set (batches (issued d d')). length a = columns L * 100))"
proof -
  let ?n = "length (records r)"
  have fl: "\<forall>rc\<in>set (records r). length rc = columns L"
    using records_fields[of r] header_fields[OF hd] hl c by simp
  then have tk: "map (take (columns L)) (records r) = records r" by (rule take_all_rows)
  have cl: "length (concat (records r)) = columns L * ?n" using fl by (rule concat_rows_length)
  obtain f v d2 where lp: "loop L e r (initVars L) (d\<lparr>pending := [], calls := calls d @ [Begin]\<rparr>) = (f, v, d2)"
    by (cases "loop L e r (initVars L) (d\<lparr>pending := [], calls := calls d @ [Begin]\<rparr>)")
  show ?thesis
  proof (cases f)
    case Break
    from populate_end_of_stream[OF hd valid nb lp[unfolded Break] run c] obtain full where
      full: "batches (issued d d') = full @ (if vals v = [] then [] else [vals v])"
        "length full = ?n div 100" "\<forall>a\<in>set full. length a = columns L * 100"
        "length (vals v) = columns L * (?n mod 100)"
        "concat full @ vals v = concat (records r)"
      using tk by auto
    have z: "?n = 0 \<longrightarrow> batches (issued d d') = []"
      using full(1,2,4) by auto
    have one: "1 \<le> ?n \<and> ?n \<le> 100 \<longrightarrow> batches (issued d d') = [concat (records r)]"
    proof
      assume n: "1 \<le> ?n \<and> ?n \<le> 100"
      show "batches (issued d d') = [concat (records r)]"
      proof (cases "?n = 100")
        case True
        with full(2,4) have "length full = 1" "vals v = []" by simp_all
        then obtain a where "full = [a]" by (cases full) auto
        with full(1,5) \<open>vals v = []\<close> show ?thesis by simp
      next
        case False
        with n have lt: "?n < 100" by simp
        with full(2) have "full = []" by simp
        moreover from lt n full(4) c have "vals v \<noteq> []" by auto
        ultimately show ?thesis using full(1,5) by simp
      qed
    qed
    have mult: "0 < ?n \<and> ?n mod 100 = 0 \<and> out \<noteq> Return (Some ExecError) \<longrightarrow>
            length (batches (issued d d')) = ?n div 100 \<and>
            (\<forall>a\<in>set (batches (issued d d')). length a = columns L * 100)"
    proof (intro impI)
      assume m: "0 < ?n \<and> ?n mod 100 = 0 \<and> out \<noteq> Return (Some ExecError)"
      with full(4) have "vals v = []" by simp
      with full(1,2,3) show "length (batches (issued d d')) = ?n div 100 \<and>
            (\<forall>a\<in>set (batches (issued d d')). length a = columns L * 100)"
        by simp
    qed
    from z one mult show ?thesis by blast
  next
    case (Exit out')
    from run hd valid nb lp Exit have o: "out' = out" and d': "d2 = d'"
      by (cases rule: populate_cases; simp)+
    from loop_Exit[OF lp[unfolded Exit] init_inv] fl o
    obtain cs rest where ex: "out = Return (Some ExecError)"
        "calls d' = calls d @ Begin # cs" "batches cs \<noteq> []"
        "length (batches cs) \<le> ?n div 100"
        "concat (batches cs) @ rest = concat (records r)"
      using tk d' by (auto simp: initVars_def batchSize_def)
    from loop_frame[OF lp init_inv] ex(2) d'
    have sz: "\<forall>a\<in>set (batches cs). length a = columns L * 100"
      by (auto simp: batchSize_def)
    from ex(2) have i: "batches (issued d d') = batches cs" by (simp add: issued_append)
    have z: "?n = 0 \<longrightarrow> batches (issued d d') = []" using ex(3,4) by auto
    have one: "1 \<le> ?n \<and> ?n \<le> 100 \<longrightarrow> batches (issued d d') = [concat (records r)]"
    proof
      assume n: "1 \<le> ?n \<and> ?n \<le> 100"
      with ex(3,4) have "?n = 100" "length (batches cs) = 1"
        by (cases "?n = 100"; cases "batches cs"; simp)+
      then obtain a where a: "batches cs = [a]" by (cases "batches cs") auto
      with sz have "length a = columns L * 100" by simp
      with a ex(5) cl \<open>?n = 100\<close> have "a = concat (records r)"
        by (metis append_eq_conv_conj concat.simps(1,2) append_Nil2 take_all order_refl)
      with a i show "batches (issued d d') = [concat (records r)]" by simp
    qed
    from z one ex(1) show ?thesis by blast
  qed
qed


text \<open>With an engine that rejects nothing, a load with the expected header succeeds.\<close>

lemma accepting_load:
  assumes hd: "Read (NewReader ls) = (Rec h, r)" and valid: "validateHeaders (tableName L) h"
    and hl: "length h = columns L" and c: "0 < columns L"
    and nb: "\<not> begin_fails e d" and ne: "\<forall>d s a. \<not> exec_fails e d s a"
    and nc: "\<forall>d. \<not> commit_fails e d"
  shows "\<exists>d'. populate L e (Some ls) d = (Return None, Some (length (records r)), d')"
proof -
  obtain out tot d' where run: "populate L e (Some ls) d = (out, tot, d')"
    by (cases "populate L e (Some ls) d")
  have fl: "\<forall>rc\<in>set (records r). length rc = columns L"
    using records_fields[of r] header_fields[OF hd] hl c by simp
  from run have "out = Return None \<and> tot \<noteq> None"
  proof (cases rule: populate_cases)
    case (header_fail ls' err r')
    with hd show ?thesis by simp
  next
    case (invalid ls' h' r')
    with hd valid show ?thesis by simp
  next
    case (begin_fail ls' h' r')
    with nb show ?thesis by simp
  next
    case (loop_exit ls' h' r' v)
    with hd have lp: "loop L e r (initVars L) (d\<lparr>pending := [], calls := calls d @ [Begin]\<rparr>) = (Exit out, v, d')"
      by simp
    from loop_never_rejected[OF ne lp] loop_Exit[OF lp init_inv] fl show ?thesis by auto
  next
    case (flush_fail ls' h' r' v d2)
    with ne show ?thesis by simp
  next
    case (commit_fail ls' h' r' v d2 d3)
    with nc show ?thesis by simp
  qed simp_all
  then obtain t where t: "out = Return None" "tot = Some t" by auto
  from populate_success[OF hd run[unfolded t] c] run t show ?thesis by simp
qed


text \<open>When the engine rejects every insert, the first full batch is the only one handed over.\<close>

lemma rejected_first_batch:
  assumes hd: "Read (NewReader ls) = (Rec h, r)" and valid: "validateHeaders (tableName L) h"
    and hl: "length h = columns L" and c: "0 < columns L"
    and nb: "\<not> begin_fails e d" and rj: "\<forall>d s a. exec_fails e d s a"
    and n: "100 \<le> length (records r)"
    and run: "populate L e (Some ls) d = (out, tot, d')"
  shows "length (batches (issued d d')) = 1"
proof -
  have fl: "\<forall>rc\<in>set (records r). length rc = columns L"
    using records_fields[of r] header_fields[OF hd] hl c by simp
  obtain f v d2 where lp: "loop L e r (initVars L) (d\<lparr>pending := [], calls := calls d @ [Begin]\<rparr>) = (f, v, d2)"
    by (cases "loop L e r (initVars L) (d\<lparr>pending := [], calls := calls d @ [Begin]\<rparr>)")
  from loop_always_rejected[OF rj lp] obtain cs where
    cs: "calls d2 = calls d @ Begin # cs" "length (batches cs) \<le> 1"
      "f = Break \<longrightarrow> batches cs = []"
    by auto
  show ?thesis
  proof (cases f)
    case Break
    from loop_init_Break[OF lp[unfolded Break] c] cs(1)
    have "length (batches cs) = length (records r) div batchSize" by auto
    with cs(3) Break n show ?thesis by (simp add: batchSize_def)
  next
    case (Exit out')
    from run hd valid nb lp Exit have d': "d2 = d'"
      by (cases rule: populate_cases; simp)
    from loop_Exit[OF lp[unfolded Exit] init_inv] fl cs(1)
    have "batches cs \<noteq> []" by auto
    with cs(2) have "length (batches cs) = 1" by (cases "batches cs") auto
    with cs(1) d' show ?thesis by (simp add: issued_append)
  qed
qed

text \<open>When the header has as many fields as the loader takes, no record access panics.\<close>

lemma expected_header_no_panic:
  assumes hd: "Read (NewReader ls) = (Rec h, r)" and hl: "length h = columns L" and c: "0 < columns L"
    and run: "populate L e (Some ls) d = (out, tot, d')"
  shows "out \<noteq> Panic"
proof -
  have fl: "\<forall>rc\<in>set (records r). length rc = columns L"
    using records_fields[of r] header_fields[OF hd] hl c by simp
  from run show ?thesis
  proof (cases rule: populate_cases)
    case (loop_exit ls' h' r' v)
    with hd have "loop L e r (initVars L) (d\<lparr>pending := [], calls := calls d @ [Begin]\<rparr>) = (Exit out, v, d')"
      by simp
    from loop_Exit[OF this init_inv] fl show ?thesis by auto
  qed simp_all
qed

text \<open>No run of a populate function calls \<^verbatim>\<open>tx.Rollback\<close>.\<close>

lemma never_rollback:
  assumes run: "populate L e src d = (out, tot, d')" and c: "0 < columns L"
  shows "Rollback \<notin> set (issued d d')"
  using run
proof (cases rule: populate_cases)
  case (loop_exit ls h r v)
  from loop_frame[OF loop_exit(5) init_inv] obtain cs where
    "calls d' = calls d @ Begin # cs" "Rollback \<notin> set cs"
    by auto
  then show ?thesis by (simp add: issued_append)
next
  case (flush_fail ls h r v d2)
  from loop_init_Break[OF flush_fail(5) c] obtain cs where
    "calls d2 = calls d @ Begin # cs" "Rollback \<notin> set cs"
    by blast
  with flush_fail have "issued d d' = Begin # cs @ [Exec (butlast (insertStmt v)) (vals v)]"
    by (intro issued_append) simp
  with \<open>Rollback \<notin> set cs\<close> show ?thesis by simp
next
  case (commit_fail ls h r v d2 d3)
  from loop_init_Break[OF commit_fail(5) c] obtain cs where
    cs: "calls d2 = calls d @ Begin # cs" "Rollback \<notin> set cs"
    by blast
  with commit_fail
  have "issued d d' = Begin # cs @ (if vals v = [] then [] else [Exec (butlast (insertStmt v)) (vals v)]) @ [Commit]"
    by (intro issued_append) simp
  with cs(2) show ?thesis by simp
next
  case (success ls h r v d2 d3)
  from loop_init_Break[OF success(5) c] obtain cs where
    cs: "calls d2 = calls d @ Begin # cs" "Rollback \<notin> set cs"
    by blast
  with success
  have "issued d d' = Begin # cs @ (if vals v = [] then [] else [Exec (butlast (insertStmt v)) (vals v)]) @ [Commit]"
    by (intro issued_append) simp
  with cs(2) show ?thesis by simp
qed (simp_all add: issued_def)


section \<open>The loaders at the inputs where they depart from their description\<close>

text \<open>
  C3 (the code at the failing input). The claim says that a header that fails validation
  makes the populate function return a non-nil error. With the header
  \<open>name,id,year,rank\<close> (resp. \<open>genre,movie_id\<close>) no data record is read and no call
  reaches the storage engine, but the value returned is \<^verbatim>\<open>nil\<close>: the function
  returns the \<^verbatim>\<open>err\<close> of the header's \<^verbatim>\<open>Read\<close>, which succeeded.
\<close>

theorem invalid_header_returns_nil:
  "populateMovies e (Some (Fields [''name'', ''id'', ''year'', ''rank''] # ls)) d = (Return None, None, d)
   \<and> populateMoviesGenres e (Some (Fields [''genre'', ''movie_id''] # ls)) d = (Return None, None, d)"
  by (simp add: populateMovies_def populateMoviesGenres_def populate_def Read_def NewReader_def
      validateHeaders_def moviesLoader_def moviesGenresLoader_def)

text \<open>
  C4 (the code at the failing input). The claim says that \<^verbatim>\<open>tx.Rollback\<close> is invoked
  when a batch insert or the commit returns an error. With one data row and an engine
  that rejects every insert, resp. every commit, the error is returned and no further
  call is made, but the calls end with the rejected \<^verbatim>\<open>Exec\<close>, resp. \<^verbatim>\<open>Commit\<close>: there is
  no \<^verbatim>\<open>Rollback\<close>, and after the rejected commit the inserted row is still pending in
  the open transaction.
\<close>

theorem failed_insert_without_rollback:
  "populateMovies rejecting
     (Some [Fields [''id'', ''name'', ''year'', ''rank''], Fields [''1'', ''Foo'', ''1999'', ''6.4'']]) emptyTable
   = (Return (Some ExecError), None,
      \<lparr>rows = [], pending = [],
       calls = [Begin, Exec ''INSERT INTO movies (id, name, year, rank) VALUES(?, ?, ?, ?)''
                  [''1'', ''Foo'', ''1999'', ''6.4'']]\<rparr>)
   \<and> populateMovies commitRejecting
     (Some [Fields [''id'', ''name'', ''year'', ''rank''], Fields [''1'', ''Foo'', ''1999'', ''6.4'']]) emptyTable
   = (Return (Some CommitError), None,
      \<lparr>rows = [], pending = [ [''1'', ''Foo'', ''1999'', ''6.4'']],
       calls = [Begin, Exec ''INSERT INTO movies (id, name, year, rank) VALUES(?, ?, ?, ?)''
                  [''1'', ''Foo'', ''1999'', ''6.4''], Commit]\<rparr>)"
  by (simp add: populateMovies_def populate_def Read_def NewReader_def validateHeaders_def
      moviesLoader_def accepting_def rejecting_def commitRejecting_def emptyTable_def db_Begin_def
      tx_Exec_def tx_Commit_def initVars_def deferred_def batchSize_def Let_def loop.simps
      bound_rows_single)

text \<open>
  C10 (the code at the failing input). The claim says that a record returned without
  error after a validated header has 4 (resp. 2) fields, so that indexing it never
  fails. The header line \<open>"id,name",year,rank\<close> has three fields and passes
  validateHeaders; the reader then accepts the three-field record \<open>1,Foo,1999\<close>, and
  \<^verbatim>\<open>moviesRecord[3]\<close> is out of range: the function panics. The same happens in
  \<^verbatim>\<open>populateMoviesGenres\<close> with the one-field header \<open>"movie_id,genre"\<close>.
\<close>

theorem short_record_panics:
  "validateHeaders ''movies'' [''id,name'', ''year'', ''rank'']
   \<and> Read \<lparr>FieldsPerRecord = 3, input = [Fields [''1'', ''Foo'', ''1999'']]\<rparr>
       = (Rec [''1'', ''Foo'', ''1999''], \<lparr>FieldsPerRecord = 3, input = []\<rparr>)
   \<and> populateMovies accepting
       (Some [Fields [''id,name'', ''year'', ''rank''], Fields [''1'', ''Foo'', ''1999'']]) emptyTable
     = (Panic, None, \<lparr>rows = [], pending = [], calls = [Begin]\<rparr>)
   \<and> validateHeaders ''movies_genres'' [''movie_id,genre'']
   \<and> populateMoviesGenres accepting
       (Some [Fields [''movie_id,genre''], Fields [''1'']]) emptyTable
     = (Panic, None, \<lparr>rows = [], pending = [], calls = [Begin]\<rparr>)"
  by (simp add: populateMovies_def populateMoviesGenres_def populate_def Read_def NewReader_def
      validateHeaders_def moviesLoader_def moviesGenresLoader_def accepting_def emptyTable_def
      db_Begin_def initVars_def deferred_def batchSize_def Let_def loop.simps)

section \<open>The first reporting query on two movies of one genre\<close>

text \<open>
  C9 (the code at the failing input). The claim says that the query returns one row per
  genre, with the genre's average rating and movie count. With two movies of the genre
  Drama rated 5 and 7, the query returns two rows for Drama, one per rating, each with
  count 1 and its own rating as the average: the grouping is by genre and rating.
\<close>

theorem rows_per_genre_and_rank:
  "queryDbHighestRatedGenres text_num
     [\<lparr>m_id = 1, m_name = ''A'', m_year = 2000, m_rank = Num 5\<rparr>,
      \<lparr>m_id = 2, m_name = ''B'', m_year = 2001, m_rank = Num 7\<rparr>]
     [\<lparr>mg_movie_id = 1, mg_genre = ''Drama''\<rparr>, \<lparr>mg_movie_id = 2, mg_genre = ''Drama''\<rparr>]
   = [(''Drama'', 7, 1), (''Drama'', 5, 1)]"
  by (simp add: queryDbHighestRatedGenres_def joined_def AVG_def)

text \<open>What the query does keep: at most 20 rows, in descending order of \<^verbatim>\<open>avg_rank\<close>.\<close>

lemma query_limit: "length (queryDbHighestRatedGenres text_num movies genres) \<le> 20"
  by (simp add: queryDbHighestRatedGenres_def Let_def)

lemma sorted_take_sort_key: "sorted (map f (take n (sort_key f xs)))"
proof -
  have "sorted (take n (map f (sort_key f xs)))"
    by (intro sorted_wrt_take) simp
  then show ?thesis by (simp add: take_map)
qed

lemma query_order:
  "sorted (map (\<lambda>(genre, avg_rank, movie_count). - avg_rank)
     (queryDbHighestRatedGenres text_num movies genres))"
  unfolding queryDbHighestRatedGenres_def Let_def by (rule sorted_take_sort_key)

section \<open>The load transaction, its batches and its counts\<close>

text \<open>
  In the theorems of this section \<open>L\<close> is one of the two loaders:
  \<open>populateMovies = populate moviesLoader\<close> and
  \<open>populateMoviesGenres = populate moviesGenresLoader\<close>.
\<close>

text \<open>
  C1. The load of one table is all-or-nothing. Whenever a populate function ends in
  any other way than by returning \<^verbatim>\<open>nil\<close> (in particular when a batch insert or the
  commit returns an error), the destination table holds exactly the rows it held
  before, whatever was inserted without error inside the transaction. If the table has
  changed, the function has returned \<^verbatim>\<open>nil\<close> and the table has gained every record
  that the reader returned without error, in order. Rows inserted in the transaction
  reach the table only through a commit that succeeds.
\<close>

theorem load_all_or_nothing:
  assumes "L = moviesLoader \<or> L = moviesGenresLoader"
    and "populate L e src d = (out, tot, d')"
  shows "(out \<noteq> Return None \<longrightarrow> rows d' = rows d) \<and>
         (rows d' \<noteq> rows d \<longrightarrow>
            out = Return None \<and>
            (\<exists>ls h r. src = Some ls \<and> Read (NewReader ls) = (Rec h, r) \<and>
               rows d' = rows d @ map (take (columns L)) (records r)))"
  using populate_table[OF assms(2) loader_columns[OF assms(1)]] by blast

text \<open>
  Witness: the two rows of the sample file are inserted without error and the commit is
  rejected; the rows are pending in the transaction and the table is as before.
\<close>

theorem load_all_or_nothing_witness:
  "(moviesLoader = moviesLoader \<or> moviesLoader = moviesGenresLoader)
   \<and> populate moviesLoader commitRejecting (Some sampleFile) emptyTable
       = (Return (Some CommitError), None, \<lparr>rows = [], pending = sampleRows, calls = [Begin, sampleExec, Commit]\<rparr>)
   \<and> Return (Some CommitError) \<noteq> Return None
   \<and> rows \<lparr>rows = [], pending = sampleRows, calls = [Begin, sampleExec, Commit]\<rparr> = rows emptyTable"
proof -
  have L: "moviesLoader = moviesLoader \<or> moviesLoader = moviesGenresLoader" by simp
  have run: "populate moviesLoader commitRejecting (Some sampleFile) emptyTable
      = (Return (Some CommitError), None, \<lparr>rows = [], pending = sampleRows, calls = [Begin, sampleExec, Commit]\<rparr>)"
    by (simp add: commitRejecting_def sampleRow_def sampleRows_def sampleFile_def sampleData_def sampleValues_def sampleExec_def sampleVars_def populate_def Read_def NewReader_def validateHeaders_def moviesLoader_def accepting_def emptyTable_def db_Begin_def tx_Exec_def tx_Commit_def initVars_def deferred_def batchSize_def Let_def loop.simps bound_rows.simps issued_def records_def results.simps)
  have ne: "Return (Some CommitError) \<noteq> Return None" by simp
  from load_all_or_nothing[OF L run] ne
  have "rows \<lparr>rows = [], pending = sampleRows, calls = [Begin, sampleExec, Commit]\<rparr> = rows emptyTable" by blast
  with L run ne show ?thesis by blast
qed

text \<open>
  C5. For a load that succeeds (the function returns \<^verbatim>\<open>nil\<close> after the commit and
  prints its total), the table has gained as many rows as records were read after the
  header less those skipped for a decode error, the printed total is that number, and
  \<^verbatim>\<open>tx.Commit\<close> is called exactly once. In particular, 250 well-formed rows after
  the header \<open>id,name,year,rank\<close>, on an engine that rejects nothing, are handed over as
  two batches of 100 rows and one of 50, and 250 rows are in the table.
\<close>

theorem successful_load_counts:
  "((L = moviesLoader \<or> L = moviesGenresLoader) \<and> Read (NewReader ls) = (Rec header, r) \<and>
    populate L e (Some ls) d = (Return None, Some t, d') \<longrightarrow>
      length (rows d') = length (rows d) + (length (results r) - skipped (results r)) \<and>
      rows d' = rows d @ map (take (columns L)) (records r) \<and>
      t = length (results r) - skipped (results r) \<and>
      length (filter (\<lambda>c. c = Commit) (issued d d')) = 1)
   \<and> (length recs = 250 \<and> (\<forall>rc\<in>set recs. length rc = 4) \<longrightarrow>
        (\<exists>d''. populateMovies accepting (Some (Fields [''id'', ''name'', ''year'', ''rank''] # map Fields recs)) d
                = (Return None, Some 250, d'') \<and>
           map length (batches (issued d d'')) = [4 * 100, 4 * 100, 4 * 50] \<and>
           concat (batches (issued d d'')) = concat recs \<and>
           rows d'' = rows d @ recs \<and>
           length (filter (\<lambda>c. c = Commit) (issued d d'')) = 1))"
proof (rule conjI; rule impI)
  assume h: "(L = moviesLoader \<or> L = moviesGenresLoader) \<and> Read (NewReader ls) = (Rec header, r) \<and>
    populate L e (Some ls) d = (Return None, Some t, d')"
  then have c: "0 < columns L" by (intro loader_columns) simp
  from h populate_success[OF _ _ c, of ls header r e d t d']
  have "rows d' = rows d @ map (take (columns L)) (records r)" "t = length (records r)"
    "length (filter (\<lambda>c. c = Commit) (issued d d')) = 1"
    by simp_all
  then show "length (rows d') = length (rows d) + (length (results r) - skipped (results r)) \<and>
      rows d' = rows d @ map (take (columns L)) (records r) \<and>
      t = length (results r) - skipped (results r) \<and>
      length (filter (\<lambda>c. c = Commit) (issued d d')) = 1"
    by (simp add: records_count)
next
  assume h: "length recs = 250 \<and> (\<forall>rc\<in>set recs. length rc = 4)"
  let ?ls = "Fields [''id'', ''name'', ''year'', ''rank''] # map Fields recs"
  let ?r = "\<lparr>FieldsPerRecord = 4, input = map Fields recs\<rparr>"
  have hd: "Read (NewReader ?ls) = (Rec [''id'', ''name'', ''year'', ''rank''], ?r)"
    by (simp add: Read_def NewReader_def)
  have valid: "validateHeaders (tableName moviesLoader) [''id'', ''name'', ''year'', ''rank'']"
    by (simp add: validateHeaders_def moviesLoader_def)
  have c: "0 < columns moviesLoader" and c4: "columns moviesLoader = 4"
    by (simp_all add: moviesLoader_def)
  have recs: "records ?r = recs" using h by (intro records_map_Fields) simp_all
  have nb: "\<not> begin_fails accepting d" by (simp add: accepting_def)
  from accepting_load[OF hd valid _ c nb] recs h c4
  obtain d'' where run: "populate moviesLoader accepting (Some ?ls) d = (Return None, Some 250, d'')"
    by (auto simp: accepting_def)
  obtain v d2 where lp: "loop moviesLoader accepting ?r (initVars moviesLoader)
      (d\<lparr>pending := [], calls := calls d @ [Begin]\<rparr>) = (Break, v, d2)"
    using run hd by (cases rule: populate_cases) auto
  have tk: "map (take 4) recs = recs" using h by (intro take_all_rows) simp
  from populate_end_of_stream[OF hd valid nb lp run c] recs h c4 tk
  obtain full where full: "batches (issued d d'') = full @ (if vals v = [] then [] else [vals v])"
      "length full = 2" "\<forall>a\<in>set full. length a = 400" "length (vals v) = 200"
      "concat full @ vals v = concat recs"
    by auto
  from full(2) obtain a b where "full = [a, b]"
    by (cases full; cases "tl full") auto
  with full have "map length (batches (issued d d'')) = [4 * 100, 4 * 100, 4 * 50]"
    and "concat (batches (issued d d'')) = concat recs"
    by auto
  moreover from populate_success[OF hd run c] recs c4 tk
  have "rows d'' = rows d @ recs" "length (filter (\<lambda>c. c = Commit) (issued d d'')) = 1"
    by simp_all
  ultimately show "\<exists>d''. populateMovies accepting (Some ?ls) d = (Return None, Some 250, d'') \<and>
           map length (batches (issued d d'')) = [4 * 100, 4 * 100, 4 * 50] \<and>
           concat (batches (issued d d'')) = concat recs \<and>
           rows d'' = rows d @ recs \<and>
           length (filter (\<lambda>c. c = Commit) (issued d d'')) = 1"
    using run by (auto simp: populateMovies_def)
qed

text \<open>
  Witness: the sample file, with three records after the header of which one is skipped;
  and 250 copies of one row.
\<close>

theorem successful_load_counts_witness:
  "(moviesLoader = moviesLoader \<or> moviesLoader = moviesGenresLoader)
   \<and> Read (NewReader sampleFile) = (Rec [''id'', ''name'', ''year'', ''rank''], sampleData)
   \<and> populate moviesLoader accepting (Some sampleFile) emptyTable = (Return None, Some 2, \<lparr>rows = sampleRows, pending = [], calls = [Begin, sampleExec, Commit]\<rparr>)
   \<and> length (results sampleData) = 3
   \<and> skipped (results sampleData) = 1
   \<and> length (rows \<lparr>rows = sampleRows, pending = [], calls = [Begin, sampleExec, Commit]\<rparr>)
       = length (rows emptyTable) + (length (results sampleData) - skipped (results sampleData))
   \<and> (2::nat) = length (results sampleData) - skipped (results sampleData)
   \<and> length (filter (\<lambda>c. c = Commit) (issued emptyTable \<lparr>rows = sampleRows, pending = [], calls = [Begin, sampleExec, Commit]\<rparr>)) = 1
   \<and> length (replicate 250 sampleRow) = 250
   \<and> list_all (\<lambda>rc. length rc = 4) (replicate 250 sampleRow)
   \<and> (\<exists>d''. populateMovies accepting
               (Some (Fields [''id'', ''name'', ''year'', ''rank''] # map Fields (replicate 250 sampleRow))) emptyTable
             = (Return None, Some 250, d'') \<and>
          map length (batches (issued emptyTable d'')) = [4 * 100, 4 * 100, 4 * 50] \<and>
          concat (batches (issued emptyTable d'')) = concat (replicate 250 sampleRow) \<and>
          rows d'' = rows emptyTable @ replicate 250 sampleRow \<and>
          length (filter (\<lambda>c. c = Commit) (issued emptyTable d'')) = 1)"
proof -
  let ?D = "\<lparr>rows = sampleRows, pending = [], calls = [Begin, sampleExec, Commit]\<rparr>"
  let ?recs = "replicate 250 sampleRow"
  have L: "moviesLoader = moviesLoader \<or> moviesLoader = moviesGenresLoader" by simp
  have hd: "Read (NewReader sampleFile) = (Rec [''id'', ''name'', ''year'', ''rank''], sampleData)"
    by (simp add: Read_def NewReader_def sampleRow_def sampleRows_def sampleFile_def sampleData_def sampleValues_def sampleExec_def sampleVars_def)
  have run: "populate moviesLoader accepting (Some sampleFile) emptyTable = (Return None, Some 2, ?D)"
    by (simp add: sampleRow_def sampleRows_def sampleFile_def sampleData_def sampleValues_def sampleExec_def sampleVars_def populate_def Read_def NewReader_def validateHeaders_def moviesLoader_def accepting_def emptyTable_def db_Begin_def tx_Exec_def tx_Commit_def initVars_def deferred_def batchSize_def Let_def loop.simps bound_rows.simps issued_def records_def results.simps)
  have res: "length (results sampleData) = 3" "skipped (results sampleData) = 1"
    by (simp_all add: results.simps Read_def sampleRow_def sampleRows_def sampleFile_def sampleData_def sampleValues_def sampleExec_def sampleVars_def)
  have len: "length ?recs = 250" by simp
  have all4: "\<forall>rc\<in>set ?recs. length rc = 4" by (simp add: sampleRow_def)
  then have la: "list_all (\<lambda>rc. length rc = 4) ?recs" by (simp add: list_all_iff)
  note inst = successful_load_counts[of moviesLoader sampleFile "[''id'', ''name'', ''year'', ''rank'']" sampleData
      accepting emptyTable 2 ?D ?recs]
  from inst L hd run
  have one: "length (rows ?D)
        = length (rows emptyTable) + (length (results sampleData) - skipped (results sampleData))"
      "(2::nat) = length (results sampleData) - skipped (results sampleData)"
      "length (filter (\<lambda>c. c = Commit) (issued emptyTable ?D)) = 1"
    by blast+
  from inst len all4
  have two: "\<exists>d''. populateMovies accepting (Some (Fields [''id'', ''name'', ''year'', ''rank''] # map Fields ?recs)) emptyTable
             = (Return None, Some 250, d'') \<and>
          map length (batches (issued emptyTable d'')) = [4 * 100, 4 * 100, 4 * 50] \<and>
          concat (batches (issued emptyTable d'')) = concat ?recs \<and>
          rows d'' = rows emptyTable @ ?recs \<and>
          length (filter (\<lambda>c. c = Commit) (issued emptyTable d'')) = 1"
    by blast
  from L hd run res one len la two show ?thesis by blast
qed

text \<open>
  C6. Every batch handed to \<^verbatim>\<open>tx.Exec\<close>, in any run, has between 1 and 100 rows
  (its argument list has \<open>columns L * k\<close> entries with \<open>1 \<le> k \<le> 100\<close>): no batch
  of zero rows is executed. When the loop ends at the end of the stream, the batches of
  the run are the full batches of the loop, \<open>n div 100\<close> of them for \<open>n\<close> valid
  records, followed by the buffer left over, once, if it is not empty; the buffer holds
  \<open>n mod 100\<close> rows, and all the batches together are the valid rows in order.
\<close>

theorem batches_between_1_and_100:
  assumes "L = moviesLoader \<or> L = moviesGenresLoader"
  shows "(populate L e src d = (out, tot, d') \<longrightarrow>
            (\<forall>a\<in>set (batches (issued d d')). \<exists>k. 1 \<le> k \<and> k \<le> 100 \<and> length a = columns L * k))
       \<and> (Read (NewReader ls) = (Rec header, r) \<and> validateHeaders (tableName L) header \<and>
          db_Begin e d = (None, d1) \<and> loop L e r (initVars L) d1 = (Break, v, d2) \<and>
          populate L e (Some ls) d = (out, tot, d') \<longrightarrow>
            (\<exists>full. batches (issued d d') = full @ (if vals v = [] then [] else [vals v]) \<and>
               length full = length (records r) div 100 \<and>
               (\<forall>a\<in>set full. length a = columns L * 100) \<and>
               length (vals v) = columns L * (length (records r) mod 100) \<and>
               concat full @ vals v = concat (map (take (columns L)) (records r))))"
proof (intro conjI impI)
  assume "populate L e src d = (out, tot, d')"
  from populate_batch_sizes[OF this loader_columns[OF assms]]
  show "\<forall>a\<in>set (batches (issued d d')). \<exists>k. 1 \<le> k \<and> k \<le> 100 \<and> length a = columns L * k"
    by blast
next
  assume h: "Read (NewReader ls) = (Rec header, r) \<and> validateHeaders (tableName L) header \<and>
          db_Begin e d = (None, d1) \<and> loop L e r (initVars L) d1 = (Break, v, d2) \<and>
          populate L e (Some ls) d = (out, tot, d')"
  then have nb: "\<not> begin_fails e d" and d1: "d1 = d\<lparr>pending := [], calls := calls d @ [Begin]\<rparr>"
    by (auto simp: db_Begin_def split: if_splits)
  from h d1 have lp: "loop L e r (initVars L) (d\<lparr>pending := [], calls := calls d @ [Begin]\<rparr>) = (Break, v, d2)"
    by simp
  from populate_end_of_stream[OF _ _ nb lp _ loader_columns[OF assms]] h
  show "\<exists>full. batches (issued d d') = full @ (if vals v = [] then [] else [vals v]) \<and>
               length full = length (records r) div 100 \<and>
               (\<forall>a\<in>set full. length a = columns L * 100) \<and>
               length (vals v) = columns L * (length (records r) mod 100) \<and>
               concat full @ vals v = concat (map (take (columns L)) (records r))"
    by blast
qed

text \<open>
  Witness: the sample file; its two valid rows are flushed at the end of the stream as
  one batch of two rows.
\<close>

theorem batches_between_1_and_100_witness:
  "(moviesLoader = moviesLoader \<or> moviesLoader = moviesGenresLoader)
   \<and> populate moviesLoader accepting (Some sampleFile) emptyTable = (Return None, Some 2, \<lparr>rows = sampleRows, pending = [], calls = [Begin, sampleExec, Commit]\<rparr>)
   \<and> batches (issued emptyTable \<lparr>rows = sampleRows, pending = [], calls = [Begin, sampleExec, Commit]\<rparr>) = [sampleValues]
   \<and> (\<exists>k. 1 \<le> k \<and> k \<le> 100 \<and> length sampleValues = columns moviesLoader * k)
   \<and> Read (NewReader sampleFile) = (Rec [''id'', ''name'', ''year'', ''rank''], sampleData)
   \<and> validateHeaders (tableName moviesLoader) [''id'', ''name'', ''year'', ''rank'']
   \<and> db_Begin accepting emptyTable = (None, \<lparr>rows = [], pending = [], calls = [Begin]\<rparr>)
   \<and> loop moviesLoader accepting sampleData (initVars moviesLoader) \<lparr>rows = [], pending = [], calls = [Begin]\<rparr>
       = (Break, sampleVars, \<lparr>rows = [], pending = [], calls = [Begin]\<rparr>)
   \<and> (\<exists>full. batches (issued emptyTable \<lparr>rows = sampleRows, pending = [], calls = [Begin, sampleExec, Commit]\<rparr>)
           = full @ (if vals sampleVars = [] then [] else [vals sampleVars]) \<and>
         length full = length (records sampleData) div 100 \<and>
         (\<forall>a\<in>set full. length a = columns moviesLoader * 100) \<and>
         length (vals sampleVars) = columns moviesLoader * (length (records sampleData) mod 100) \<and>
         concat full @ vals sampleVars = concat (map (take (columns moviesLoader)) (records sampleData)))"
proof -
  let ?D = "\<lparr>rows = sampleRows, pending = [], calls = [Begin, sampleExec, Commit]\<rparr>"
  let ?d1 = "\<lparr>rows = [], pending = [], calls = [Begin]\<rparr>"
  have L: "moviesLoader = moviesLoader \<or> moviesLoader = moviesGenresLoader" by simp
  have run: "populate moviesLoader accepting (Some sampleFile) emptyTable = (Return None, Some 2, ?D)"
    by (simp add: sampleRow_def sampleRows_def sampleFile_def sampleData_def sampleValues_def sampleExec_def sampleVars_def populate_def Read_def NewReader_def validateHeaders_def moviesLoader_def accepting_def emptyTable_def db_Begin_def tx_Exec_def tx_Commit_def initVars_def deferred_def batchSize_def Let_def loop.simps bound_rows.simps issued_def records_def results.simps)
  have b: "batches (issued emptyTable ?D) = [sampleValues]"
    by (simp add: issued_def emptyTable_def sampleExec_def)
  have hd: "Read (NewReader sampleFile) = (Rec [''id'', ''name'', ''year'', ''rank''], sampleData)"
    by (simp add: Read_def NewReader_def sampleRow_def sampleRows_def sampleFile_def sampleData_def sampleValues_def sampleExec_def sampleVars_def)
  have valid: "validateHeaders (tableName moviesLoader) [''id'', ''name'', ''year'', ''rank'']"
    by (simp add: validateHeaders_def moviesLoader_def)
  have bg: "db_Begin accepting emptyTable = (None, ?d1)"
    by (simp add: db_Begin_def accepting_def emptyTable_def)
  have lp: "loop moviesLoader accepting sampleData (initVars moviesLoader) ?d1 = (Break, sampleVars, ?d1)"
    by (simp add: sampleRow_def sampleRows_def sampleFile_def sampleData_def sampleValues_def sampleExec_def sampleVars_def populate_def Read_def NewReader_def validateHeaders_def moviesLoader_def accepting_def emptyTable_def db_Begin_def tx_Exec_def tx_Commit_def initVars_def deferred_def batchSize_def Let_def loop.simps bound_rows.simps issued_def records_def results.simps)
  note inst = batches_between_1_and_100[OF L, of accepting "Some sampleFile" emptyTable
      "Return None" "Some 2" ?D sampleFile "[''id'', ''name'', ''year'', ''rank'']" sampleData ?d1 sampleVars ?d1]
  from inst run b
  have k: "\<exists>k. 1 \<le> k \<and> k \<le> 100 \<and> length sampleValues = columns moviesLoader * k"
    by simp
  from inst hd valid bg lp run
  have full: "\<exists>full. batches (issued emptyTable ?D)
           = full @ (if vals sampleVars = [] then [] else [vals sampleVars]) \<and>
         length full = length (records sampleData) div 100 \<and>
         (\<forall>a\<in>set full. length a = columns moviesLoader * 100) \<and>
         length (vals sampleVars) = columns moviesLoader * (length (records sampleData) mod 100) \<and>
         concat full @ vals sampleVars = concat (map (take (columns moviesLoader)) (records sampleData))"
    by blast
  from L run b k hd valid bg lp full show ?thesis by blast
qed

text \<open>
  C7, as amended. For an input whose header is the expected list and for which the
  transaction is begun, with \<open>n\<close> valid data rows: if \<open>n = 0\<close> no batch insert is
  executed; if \<open>1 \<le> n \<le> 100\<close> exactly one batch insert is executed, holding all
  \<open>n\<close> valid rows in their order; if \<open>n\<close> is a positive multiple of 100 and no
  batch insert is rejected, there are \<open>n div 100\<close> batch inserts, each of 100 rows,
  and no remainder batch.
\<close>

theorem batches_by_valid_row_count:
  assumes "(L = moviesLoader \<and> header = [''id'', ''name'', ''year'', ''rank'']) \<or>
           (L = moviesGenresLoader \<and> header = [''movie_id'', ''genre''])"
    and "Read (NewReader ls) = (Rec header, r)"
    and "\<not> begin_fails e d"
    and "populate L e (Some ls) d = (out, tot, d')"
  shows "(length (records r) = 0 \<longrightarrow> batches (issued d d') = []) \<and>
         (1 \<le> length (records r) \<and> length (records r) \<le> 100 \<longrightarrow>
            batches (issued d d') = [concat (records r)]) \<and>
         (0 < length (records r) \<and> length (records r) mod 100 = 0 \<and> out \<noteq> Return (Some ExecError) \<longrightarrow>
            length (batches (issued d d')) = length (records r) div 100 \<and>
            (\<forall>a\<in>set (batches (issued d d')). length a = columns L * 100))"
proof -
  from assms(1) have "validateHeaders (tableName L) header" and "length header = columns L"
    and "0 < columns L"
    by (auto simp: validateHeaders_def moviesLoader_def moviesGenresLoader_def)
  from populate_by_count[OF assms(2) this assms(3,4)] show ?thesis .
qed

text \<open>
  C7 as stated fails: with no data row (\<open>n = 0 \<le> 100\<close>) no batch insert is executed,
  where the claim says exactly one; and with 200 valid rows on an engine that rejects
  the inserts, one full batch is executed and the function returns, where the claim
  says 200 / 100 = 2.
\<close>

theorem no_batch_for_empty_input:
  "Read (NewReader (copiesFile 0)) = (Rec [''id'', ''name'', ''year'', ''rank''], copiesData 0)
   \<and> length (records (copiesData 0)) = 0
   \<and> populateMovies accepting (Some (copiesFile 0)) emptyTable = (Return None, Some 0, \<lparr>rows = [], pending = [], calls = [Begin, Commit]\<rparr>)
   \<and> batches (issued emptyTable \<lparr>rows = [], pending = [], calls = [Begin, Commit]\<rparr>) = []
   \<and> Read (NewReader (copiesFile 200)) = (Rec [''id'', ''name'', ''year'', ''rank''], copiesData 200)
   \<and> length (records (copiesData 200)) = 200
   \<and> length (batches (issued emptyTable (snd (snd
         (populateMovies rejecting (Some (copiesFile 200)) emptyTable))))) = 1"
proof -
  have a: "Read (NewReader (copiesFile 0)) = (Rec [''id'', ''name'', ''year'', ''rank''], copiesData 0)"
    by (simp add: Read_def NewReader_def copiesFile_def copiesData_def)
  have b: "length (records (copiesData 0)) = 0"
    by (simp add: records_def results.simps Read_def copiesData_def)
  have run: "populateMovies accepting (Some (copiesFile 0)) emptyTable = (Return None, Some 0, \<lparr>rows = [], pending = [], calls = [Begin, Commit]\<rparr>)"
    by (simp add: populateMovies_def copiesFile_def populate_def Read_def NewReader_def validateHeaders_def moviesLoader_def accepting_def emptyTable_def db_Begin_def tx_Exec_def tx_Commit_def initVars_def deferred_def batchSize_def Let_def loop.simps bound_rows.simps issued_def records_def results.simps)
  have bt: "batches (issued emptyTable \<lparr>rows = [], pending = [], calls = [Begin, Commit]\<rparr>) = []"
    by (simp add: issued_def emptyTable_def)
  have recs: "records (copiesData 200) = replicate 200 sampleRow"
    unfolding copiesData_def by (intro records_map_Fields) (simp_all add: sampleRow_def)
  have hd: "Read (NewReader (copiesFile 200)) = (Rec [''id'', ''name'', ''year'', ''rank''], copiesData 200)"
    by (simp add: Read_def NewReader_def copiesFile_def copiesData_def)
  have valid: "validateHeaders (tableName moviesLoader) [''id'', ''name'', ''year'', ''rank'']"
    by (simp add: validateHeaders_def moviesLoader_def)
  have one: "length (batches (issued emptyTable (snd (snd
         (populateMovies rejecting (Some (copiesFile 200)) emptyTable))))) = 1"
    unfolding populateMovies_def
    by (rule rejected_first_batch[OF hd valid,
          where tot = "fst (snd (populate moviesLoader rejecting (Some (copiesFile 200)) emptyTable))"
            and out = "fst (populate moviesLoader rejecting (Some (copiesFile 200)) emptyTable)"])
       (simp_all add: moviesLoader_def accepting_def rejecting_def recs)
  from a b run bt hd recs one show ?thesis by simp
qed

text \<open>
  Witness: the sample file, with two valid rows; and 100 copies of one row on an engine
  that rejects nothing.
\<close>

theorem batches_by_valid_row_count_witness:
  "((moviesLoader = moviesLoader \<and> [''id'', ''name'', ''year'', ''rank''] = [''id'', ''name'', ''year'', ''rank'']) \<or>
    (moviesLoader = moviesGenresLoader \<and> [''id'', ''name'', ''year'', ''rank''] = [''movie_id'', ''genre'']))
   \<and> Read (NewReader sampleFile) = (Rec [''id'', ''name'', ''year'', ''rank''], sampleData)
   \<and> \<not> begin_fails accepting emptyTable
   \<and> populate moviesLoader accepting (Some sampleFile) emptyTable = (Return None, Some 2, \<lparr>rows = sampleRows, pending = [], calls = [Begin, sampleExec, Commit]\<rparr>)
   \<and> 1 \<le> length (records sampleData)
   \<and> length (records sampleData) \<le> 100
   \<and> batches (issued emptyTable \<lparr>rows = sampleRows, pending = [], calls = [Begin, sampleExec, Commit]\<rparr>) = [concat (records sampleData)]
   \<and> Read (NewReader (copiesFile 100)) = (Rec [''id'', ''name'', ''year'', ''rank''], copiesData 100)
   \<and> 0 < length (records (copiesData 100))
   \<and> length (records (copiesData 100)) mod 100 = 0
   \<and> fst (populate moviesLoader accepting (Some (copiesFile 100)) emptyTable) \<noteq> Return (Some ExecError)
   \<and> length (batches (issued emptyTable (snd (snd
         (populate moviesLoader accepting (Some (copiesFile 100)) emptyTable)))))
       = length (records (copiesData 100)) div 100"
proof -
  let ?D = "\<lparr>rows = sampleRows, pending = [], calls = [Begin, sampleExec, Commit]\<rparr>"
  let ?X = "populate moviesLoader accepting (Some (copiesFile 100)) emptyTable"
  have L: "(moviesLoader = moviesLoader \<and> [''id'', ''name'', ''year'', ''rank''] = [''id'', ''name'', ''year'', ''rank'']) \<or>
    (moviesLoader = moviesGenresLoader \<and> [''id'', ''name'', ''year'', ''rank''] = [''movie_id'', ''genre''])" by simp
  have hd: "Read (NewReader sampleFile) = (Rec [''id'', ''name'', ''year'', ''rank''], sampleData)"
    by (simp add: Read_def NewReader_def sampleRow_def sampleRows_def sampleFile_def sampleData_def sampleValues_def sampleExec_def sampleVars_def)
  have nb: "\<not> begin_fails accepting emptyTable" by (simp add: accepting_def)
  have run: "populate moviesLoader accepting (Some sampleFile) emptyTable = (Return None, Some 2, ?D)"
    by (simp add: sampleRow_def sampleRows_def sampleFile_def sampleData_def sampleValues_def sampleExec_def sampleVars_def populate_def Read_def NewReader_def validateHeaders_def moviesLoader_def accepting_def emptyTable_def db_Begin_def tx_Exec_def tx_Commit_def initVars_def deferred_def batchSize_def Let_def loop.simps bound_rows.simps issued_def records_def results.simps)
  have n: "length (records sampleData) = 2"
    by (simp add: records_def results.simps Read_def sampleRow_def sampleRows_def sampleFile_def sampleData_def sampleValues_def sampleExec_def sampleVars_def)
  from batches_by_valid_row_count[OF L hd nb run] n
  have one: "batches (issued emptyTable ?D) = [concat (records sampleData)]" by simp
  have hd2: "Read (NewReader (copiesFile 100)) = (Rec [''id'', ''name'', ''year'', ''rank''], copiesData 100)"
    by (simp add: Read_def NewReader_def copiesFile_def copiesData_def)
  have recs: "records (copiesData 100) = replicate 100 sampleRow"
    unfolding copiesData_def by (intro records_map_Fields) (simp_all add: sampleRow_def)
  have valid: "validateHeaders (tableName moviesLoader) [''id'', ''name'', ''year'', ''rank'']"
    by (simp add: validateHeaders_def moviesLoader_def)
  from accepting_load[OF hd2 valid _ _ nb]
  have ok: "fst ?X = Return None"
    by (auto simp: moviesLoader_def accepting_def)
  have run2: "?X = (fst ?X, fst (snd ?X), snd (snd ?X))"
    by simp
  from batches_by_valid_row_count[OF L hd2 nb run2] recs ok
  have two: "length (batches (issued emptyTable (snd (snd ?X)))) = length (records (copiesData 100)) div 100"
    by simp
  from L hd nb run n one hd2 recs ok two show ?thesis by simp
qed

end
